theory Spec2Isabelle
  imports Complex_Main "HOL-Library.Sublist"
begin

section \<open>The camera store (frontend/src/store/cameraStore.js)\<close>

text \<open>
  A camera is an object: a finite map from property names to values. A property that is
  missing reads as \<open>undefined\<close>, which is \<open>None\<close> here; so \<open>c ''id''\<close> is \<open>c.id\<close>, and the
  \<open>cameraId\<close> and \<open>status\<close> passed to \<open>updateCameraStatus\<close> are optional values too, since
  the caller passes on whatever the message holds. Values are of a type \<open>'v\<close> of
  primitive values (numbers, strings), on which \<open>===\<close> is equality.

  \<open>{ ...c, status }\<close> is the object \<open>c\<close> with its \<open>status\<close> replaced; \<open>{ ...null, status }\<close>
  has the property \<open>status\<close> alone. \<open>state.selectedCamera?.id\<close> is \<open>undefined\<close> when
  no camera is selected.
\<close>

type_synonym 'v camera = "string \<rightharpoonup> 'v"

record camera_filters =
  filter_status :: string
  filter_search :: string

record 'v cameraStore =
  cameras :: "'v camera list"
  selectedCamera :: "'v camera option"
  isLoading :: bool
  error :: "string option"
  filters :: camera_filters

definition cameraStore_init :: "'v cameraStore" where
  "cameraStore_init =
     \<lparr> cameras = [], selectedCamera = None, isLoading = False, error = None,
       filters = \<lparr>filter_status = ''all'', filter_search = ''''\<rparr> \<rparr>"

definition spread :: "'v camera option \<Rightarrow> 'v camera" where
  "spread obj = (case obj of None \<Rightarrow> Map.empty | Some c \<Rightarrow> c)"

definition optional_id :: "'v camera option \<Rightarrow> 'v option" where
  "optional_id obj = (case obj of None \<Rightarrow> None | Some c \<Rightarrow> c ''id'')"

definition updateCameraStatus ::
  "'v option \<Rightarrow> 'v option \<Rightarrow> ('v, 'y) cameraStore_scheme \<Rightarrow> ('v, 'y) cameraStore_scheme" where
  "updateCameraStatus cameraId st state =
     state\<lparr> cameras := map (\<lambda>c. if c ''id'' = cameraId then c(''status'' := st) else c)
                          (cameras state),
            selectedCamera :=
              (if optional_id (selectedCamera state) = cameraId
               then Some ((spread (selectedCamera state))(''status'' := st))
               else selectedCamera state) \<rparr>"

definition example_cameraStore :: "string cameraStore" where
  "example_cameraStore =
     \<lparr> cameras = [[''id'' \<mapsto> ''1'', ''name'' \<mapsto> ''gate'', ''status'' \<mapsto> ''online''],
                  [''id'' \<mapsto> ''2'', ''name'' \<mapsto> ''yard'', ''status'' \<mapsto> ''online'']],
       selectedCamera = Some [''id'' \<mapsto> ''2'', ''name'' \<mapsto> ''yard'', ''status'' \<mapsto> ''online''],
       isLoading = False, error = None,
       filters = \<lparr>filter_status = ''all'', filter_search = ''''\<rparr> \<rparr>"

section \<open>The event store (eventStore, frontend/src/store/cameraStore.js)\<close>

text \<open>
  The store keeps the list of events, the selected event, a loading flag, an error and
  the filters. \<open>addEvent\<close> is called for every event that arrives over the WebSocket.
\<close>

record ('e, 'f) eventStore =
  events :: "'e list"
  selectedEvent :: "'e option"
  ev_isLoading :: bool
  ev_error :: "string option"
  ev_filters :: 'f

definition addEvent :: "'e \<Rightarrow> ('e, 'f) eventStore \<Rightarrow> ('e, 'f) eventStore" where
  "addEvent event state = state\<lparr> events := event # events state \<rparr>"

definition eventStore_init :: "'f \<Rightarrow> ('e, 'f) eventStore" where
  "eventStore_init f =
     \<lparr> events = [], selectedEvent = None, ev_isLoading = False, ev_error = None,
       ev_filters = f \<rparr>"

section \<open>Durations (frontend/src/utils/format.js)\<close>

text \<open>
  A number of JavaScript is a double. The numbers that occur below are natural numbers
  (whole seconds and milliseconds, and counts of hours, minutes and seconds), so a number
  is modelled by the natural number it is, and each operation rounds its exact result to
  the nearest double, ties to the even significand, as IEEE 754 arithmetic does. A
  double that is a natural number below \<open>2 ^ 53\<close> is that number exactly; from
  \<open>2 ^ 53\<close> on the doubles are the multiples of a power of two that grows with the
  binary length of the number. A result of \<open>2 ^ 1024\<close> or more would be \<open>Infinity\<close>;
  the functions give \<open>None\<close> where such a value, or any other value that is not
  described here, would arise, so that every result \<open>Some x\<close> is the result of the code.
\<close>

fun bit_length :: "nat \<Rightarrow> nat" where
  "bit_length n = (if n = 0 then 0 else Suc (bit_length (n div 2)))"

declare bit_length.simps [simp del]

definition round_half_even :: "nat \<Rightarrow> nat \<Rightarrow> nat" where
  "round_half_even p q =
     (let d = p div q; r = p mod q
      in if 2 * r < q then d else if q < 2 * r then d + 1
         else if even d then d else d + 1)"

definition nearest_double :: "nat \<Rightarrow> nat option" where
  "nearest_double n =
     (if n < 2 ^ 53 then Some n
      else (let u = 2 ^ (bit_length n - 53); m = round_half_even n u * u
            in if m < 2 ^ 1024 then Some m else None))"

text \<open>
  \<open>Math.floor(a / b)\<close> for doubles \<open>a\<close> and \<open>b > 0\<close> that are natural numbers: the
  quotient is rounded to a double first, and the floor of that is taken. A quotient of
  \<open>2 ^ 52\<close> or more is rounded to a multiple of \<open>2 ^ j\<close>; a smaller one to a multiple of
  \<open>1 / 2 ^ k\<close>, where \<open>k\<close> is at most 1074, the finest step of a double. In both cases
  the step is the one that leaves 53 binary digits.
\<close>

definition floor_quotient :: "nat \<Rightarrow> nat \<Rightarrow> nat" where
  "floor_quotient a b =
     (if b * 2 ^ 52 \<le> a
      then (let j0 = bit_length a - bit_length b - 52;
                j = (if b * 2 ^ (52 + j0) \<le> a then j0 else j0 - 1)
            in round_half_even a (b * 2 ^ j) * 2 ^ j)
      else (let k0 = 52 + bit_length b - bit_length a;
                k = min (if b * 2 ^ 52 \<le> a * 2 ^ k0 then k0 else k0 + 1) 1074
            in round_half_even (a * 2 ^ k) b div 2 ^ k))"

text \<open>
  \<open>formatDuration\<close> reads its fields from the duration object of the dayjs library.
  \<open>dayjs.duration(seconds, 'seconds')\<close> stores \<open>seconds * 1000\<close> as its millisecond
  count; \<open>parseFromMilliseconds\<close> peels years, months, days, hours, minutes and seconds
  off that count, each time taking the floor of a quotient and then the remainder, which
  is exact; \<open>asHours()\<close> is the millisecond count divided by the length of an hour, of
  which \<open>formatDuration\<close> takes the floor. The length of a month differs between
  releases of the library (30 days, or a twelfth of a year), so it is a parameter
  \<open>ms_month\<close> here.
\<close>

definition MILLISECONDS_A_SECOND :: nat where "MILLISECONDS_A_SECOND = 1000"
definition MILLISECONDS_A_MINUTE :: nat where "MILLISECONDS_A_MINUTE = 60 * MILLISECONDS_A_SECOND"
definition MILLISECONDS_A_HOUR :: nat where "MILLISECONDS_A_HOUR = 60 * MILLISECONDS_A_MINUTE"
definition MILLISECONDS_A_DAY :: nat where "MILLISECONDS_A_DAY = 24 * MILLISECONDS_A_HOUR"
definition MILLISECONDS_A_YEAR :: nat where "MILLISECONDS_A_YEAR = MILLISECONDS_A_DAY * 365"

record dayjs_duration =
  d_ms :: nat
  d_years :: nat
  d_months :: nat
  d_days :: nat
  d_hours :: nat
  d_minutes :: nat
  d_seconds :: nat
  d_milliseconds :: nat

definition parseFromMilliseconds :: "nat \<Rightarrow> nat \<Rightarrow> dayjs_duration" where
  "parseFromMilliseconds ms_month ms0 =
     (let years = floor_quotient ms0 MILLISECONDS_A_YEAR;
          ms1 = ms0 mod MILLISECONDS_A_YEAR;
          months = floor_quotient ms1 ms_month;
          ms2 = ms1 mod ms_month;
          days = floor_quotient ms2 MILLISECONDS_A_DAY;
          ms3 = ms2 mod MILLISECONDS_A_DAY;
          hours = floor_quotient ms3 MILLISECONDS_A_HOUR;
          ms4 = ms3 mod MILLISECONDS_A_HOUR;
          minutes = floor_quotient ms4 MILLISECONDS_A_MINUTE;
          ms5 = ms4 mod MILLISECONDS_A_MINUTE;
          seconds = floor_quotient ms5 MILLISECONDS_A_SECOND;
          ms6 = ms5 mod MILLISECONDS_A_SECOND
      in \<lparr> d_ms = ms0, d_years = years, d_months = months, d_days = days, d_hours = hours,
           d_minutes = minutes, d_seconds = seconds, d_milliseconds = ms6 \<rparr>)"

definition floor_asHours :: "dayjs_duration \<Rightarrow> nat" where
  "floor_asHours dur = floor_quotient (d_ms dur) MILLISECONDS_A_HOUR"

text \<open>
  \<open>String(n)\<close> and the template literal render a natural number below \<open>2 ^ 53\<close> by
  its decimal digits; how larger numbers are rendered is not described.
  \<open>padStart(2, '0')\<close> fills up to two characters with zeros on the left.
\<close>

definition digit_char :: "nat \<Rightarrow> char" where
  "digit_char d = ''0123456789'' ! d"

fun String_nat :: "nat \<Rightarrow> string" where
  "String_nat n = (if n < 10 then [digit_char n]
                   else String_nat (n div 10) @ [digit_char (n mod 10)])"

declare String_nat.simps [simp del]

definition String_num :: "nat \<Rightarrow> string option" where
  "String_num n = (if n < 2 ^ 53 then Some (String_nat n) else None)"

definition padStart :: "nat \<Rightarrow> char \<Rightarrow> string \<Rightarrow> string" where
  "padStart targetLength c s = replicate (targetLength - length s) c @ s"

text \<open>
  \<open>formatDuration\<close>: the argument \<open>None\<close> stands for the values that take the first
  return (\<open>undefined\<close>, \<open>null\<close>, \<open>NaN\<close>); zero does not take it. \<open>Some s\<close> is the
  number \<open>s\<close>, which has to be a double.
\<close>

definition formatDuration :: "nat \<Rightarrow> nat option \<Rightarrow> string option" where
  "formatDuration ms_month seconds =
     (case seconds of
        None \<Rightarrow> Some ''-''
      | Some s \<Rightarrow>
          if nearest_double s \<noteq> Some s then None
          else (case nearest_double (s * MILLISECONDS_A_SECOND) of
                  None \<Rightarrow> None
                | Some ms \<Rightarrow>
                    (let dur = parseFromMilliseconds ms_month ms;
                         hours = floor_asHours dur;
                         minutes = d_minutes dur;
                         secs = d_seconds dur
                     in case (String_num hours, String_num minutes, String_num secs) of
                          (Some hh, Some mm, Some ss) \<Rightarrow>
                            Some (if hours > 0
                                  then hh @ '':'' @ padStart 2 CHR ''0'' mm @ '':''
                                       @ padStart 2 CHR ''0'' ss
                                  else mm @ '':'' @ padStart 2 CHR ''0'' ss)
                        | _ \<Rightarrow> None)))"

text \<open>
  \<open>durationString.split(':')\<close>: the pieces between the separators, in order; a string
  without separator gives one piece, the empty string gives one empty piece.
\<close>

fun split_acc :: "char \<Rightarrow> string \<Rightarrow> string \<Rightarrow> string list" where
  "split_acc sep acc [] = [rev acc]"
| "split_acc sep acc (x # xs) =
     (if x = sep then rev acc # split_acc sep [] xs else split_acc sep (x # acc) xs)"

definition split :: "char \<Rightarrow> string \<Rightarrow> string list" where
  "split sep s = split_acc sep [] s"

text \<open>
  \<open>Number(piece)\<close>: a string of decimal digits gives the double nearest to its value,
  the empty string gives 0, and a string that holds a character which occurs in no
  numeric literal and is no white space gives \<open>NaN\<close>. The other strings (signs,
  fractions, exponents, other radixes, \<open>Infinity\<close>, white space) are not described.
\<close>

datatype number = NotANumber | Num nat

definition is_digit :: "char \<Rightarrow> bool" where
  "is_digit c = (of_char CHR ''0'' \<le> (of_char c :: nat) \<and> (of_char c :: nat) \<le> of_char CHR ''9'')"

definition digit_val :: "char \<Rightarrow> nat" where
  "digit_val c = of_char c - of_char CHR ''0''"

definition never_numeric :: "char \<Rightarrow> bool" where
  "never_numeric c =
     (33 \<le> (of_char c :: nat) \<and> (of_char c :: nat) \<le> 126
      \<and> c \<notin> set ''0123456789+-.abcdefABCDEFxXoOInity'')"

definition Number :: "string \<Rightarrow> number option" where
  "Number s =
     (if list_all is_digit s
      then map_option Num (nearest_double (fold (\<lambda>c n. 10 * n + digit_val c) s 0))
      else if list_ex never_numeric s then Some NotANumber
      else None)"

text \<open>
  The arithmetic of \<open>parseDuration\<close>: \<open>NaN\<close> makes the result \<open>NaN\<close>, otherwise the
  exact product or sum is rounded to a double; \<open>parts[0] || 0\<close> is 0 when the first
  piece is \<open>NaN\<close> or 0.
\<close>

fun times_const :: "number option \<Rightarrow> nat \<Rightarrow> number option" where
  "times_const None c = None"
| "times_const (Some NotANumber) c = Some NotANumber"
| "times_const (Some (Num a)) c = map_option Num (nearest_double (a * c))"

fun add_numbers :: "number option \<Rightarrow> number option \<Rightarrow> number option" where
  "add_numbers None y = None"
| "add_numbers x None = None"
| "add_numbers (Some NotANumber) y = Some NotANumber"
| "add_numbers x (Some NotANumber) = Some NotANumber"
| "add_numbers (Some (Num a)) (Some (Num b)) = map_option Num (nearest_double (a + b))"

fun or_zero :: "number option \<Rightarrow> number option" where
  "or_zero None = None"
| "or_zero (Some NotANumber) = Some (Num 0)"
| "or_zero (Some (Num a)) = Some (Num a)"

definition parseDuration :: "string \<Rightarrow> number option" where
  "parseDuration durationString =
     (let parts = map Number (split CHR '':'' durationString)
      in case parts of
           [p0, p1, p2] \<Rightarrow>
             add_numbers (add_numbers (times_const p0 3600) (times_const p1 60)) p2
         | [p0, p1] \<Rightarrow> add_numbers (times_const p0 60) p1
         | p0 # _ \<Rightarrow> or_zero p0
         | [] \<Rightarrow> Some (Num 0))"

section \<open>The WebSocket hook (frontend/src/hooks/useWebSocket.js)\<close>

text \<open>
  The two constants of \<open>DEFAULTS\<close> in utils/constants.js that concern reconnection.
  The hook does not read them.
\<close>

definition WS_RECONNECT_DELAY :: nat where "WS_RECONNECT_DELAY = 5000"
definition WS_MAX_RECONNECT_ATTEMPTS :: nat where "WS_MAX_RECONNECT_ATTEMPTS = 10"

text \<open>
  The state of the hook and of the browser objects it creates. \<open>sockets\<close> holds the
  ready state of every WebSocket created so far, the index being the identity of the
  socket; every one of them carries the \<open>onclose\<close> handler that \<open>connect\<close> installs,
  and nothing in the hook removes it. \<open>timers\<close> holds the pending timeouts as pairs of
  handle and delay; handles are positive, as in a browser. \<open>scheduled\<close> records the
  delays passed to \<open>setTimeout\<close> so far, oldest first; the code does not keep it, it
  is there to state properties of whole runs. \<open>token\<close> is the token of the auth store.
\<close>

datatype readyState = CONNECTING | OPEN | CLOSING | CLOSED

record hook =
  token :: "string option"
  wsRef :: "nat option"
  reconnectTimeoutRef :: "nat option"
  sockets :: "readyState list"
  timers :: "(nat \<times> nat) list"
  next_timer :: nat
  scheduled :: "nat list"

definition hook_init :: "string option \<Rightarrow> hook" where
  "hook_init tok =
     \<lparr> token = tok, wsRef = None, reconnectTimeoutRef = None, sockets = [], timers = [],
       next_timer = 1, scheduled = [] \<rparr>"

text \<open>
  \<open>connect\<close> returns at once when the token is falsy (absent or empty). Otherwise it
  creates a socket, stores it in \<open>wsRef\<close> and installs the handlers. The constructor
  is taken to succeed: it throws only on a malformed URL, and the URL is fixed.
\<close>

definition truthy_token :: "string option \<Rightarrow> bool" where
  "truthy_token tok = (case tok of None \<Rightarrow> False | Some t \<Rightarrow> t \<noteq> [])"

definition connect :: "hook \<Rightarrow> hook" where
  "connect s =
     (if \<not> truthy_token (token s) then s
      else s\<lparr> sockets := sockets s @ [CONNECTING], wsRef := Some (length (sockets s)) \<rparr>)"

text \<open>
  The \<open>onclose\<close> handler schedules \<open>connect\<close> after 5000 ms and stores the handle.
\<close>

definition setTimeout :: "nat \<Rightarrow> hook \<Rightarrow> nat \<times> hook" where
  "setTimeout delay s =
     (next_timer s,
      s\<lparr> timers := timers s @ [(next_timer s, delay)], next_timer := Suc (next_timer s),
         scheduled := scheduled s @ [delay] \<rparr>)"

definition clearTimeout :: "nat \<Rightarrow> hook \<Rightarrow> hook" where
  "clearTimeout h s = s\<lparr> timers := filter (\<lambda>(h', d). h' \<noteq> h) (timers s) \<rparr>"

definition onclose :: "hook \<Rightarrow> hook" where
  "onclose s = (let (h, s') = setTimeout 5000 s in s'\<lparr> reconnectTimeoutRef := Some h \<rparr>)"

text \<open>
  \<open>WebSocket.close()\<close> moves a connecting or open socket to \<open>CLOSING\<close>; the browser
  fires the close event afterwards. \<open>disconnect\<close> cancels the timeout whose handle is
  stored (a handle 0 would be falsy and skipped), closes the current socket and clears
  \<open>wsRef\<close>.
\<close>

definition ws_close :: "nat \<Rightarrow> hook \<Rightarrow> hook" where
  "ws_close i s =
     (if i < length (sockets s) \<and> (sockets s ! i = CONNECTING \<or> sockets s ! i = OPEN)
      then s\<lparr> sockets := (sockets s)[i := CLOSING] \<rparr> else s)"

definition disconnect :: "hook \<Rightarrow> hook" where
  "disconnect s =
     (let s1 = (case reconnectTimeoutRef s of
                  None \<Rightarrow> s
                | Some h \<Rightarrow> if h = 0 then s else clearTimeout h s)
      in case wsRef s1 of
           None \<Rightarrow> s1
         | Some i \<Rightarrow> (ws_close i s1)\<lparr> wsRef := None \<rparr>)"

text \<open>
  What can happen to the hook: a call of \<open>connect\<close> or \<open>disconnect\<close> (from the
  effects of the component), a change of the token, and the browser's events: a socket
  opens, a socket's close event fires (after a transport drop or after \<open>close()\<close>), a
  pending timeout expires and runs its callback. An event that cannot happen in a state
  leaves it unchanged.
\<close>

datatype action =
    Connect | Disconnect | SetToken "string option"
  | OpenEvent nat | CloseEvent nat | Timeout nat

fun enabled :: "action \<Rightarrow> hook \<Rightarrow> bool" where
  "enabled (OpenEvent i) s = (i < length (sockets s) \<and> sockets s ! i = CONNECTING)"
| "enabled (CloseEvent i) s = (i < length (sockets s) \<and> sockets s ! i \<noteq> CLOSED)"
| "enabled (Timeout h) s = (h \<in> fst ` set (timers s))"
| "enabled _ s = True"

fun fire :: "action \<Rightarrow> hook \<Rightarrow> hook" where
  "fire Connect s = connect s"
| "fire Disconnect s = disconnect s"
| "fire (SetToken tok) s = s\<lparr> token := tok \<rparr>"
| "fire (OpenEvent i) s = s\<lparr> sockets := (sockets s)[i := OPEN] \<rparr>"
| "fire (CloseEvent i) s = onclose (s\<lparr> sockets := (sockets s)[i := CLOSED] \<rparr>)"
| "fire (Timeout h) s = connect (clearTimeout h s)"

definition step :: "action \<Rightarrow> hook \<Rightarrow> hook" where
  "step a s = (if enabled a s then fire a s else s)"

definition run :: "action list \<Rightarrow> hook \<Rightarrow> hook" where
  "run acts s = fold step acts s"

text \<open>
  \<open>failed_attempts n\<close>: connect, then \<open>n\<close> times the socket just created is dropped and
  the timeout scheduled by its close handler expires.
\<close>

definition failed_attempts :: "nat \<Rightarrow> action list" where
  "failed_attempts n = Connect # concat (map (\<lambda>i. [CloseEvent i, Timeout (Suc i)]) [0..<n])"

definition two_drops :: "action list" where
  "two_drops = [Connect, CloseEvent 0, Timeout 1, CloseEvent 1]"

definition stop_while_open :: "action list" where
  "stop_while_open = [Connect, OpenEvent 0, Disconnect, CloseEvent 0, Timeout 1]"

section \<open>Message dispatch (the onmessage handler and onMessage of useWebSocket.js)\<close>

text \<open>
  An incoming frame either fails in the \<open>try\<close> block before any call is made
  (\<open>JSON.parse\<close> throws, or the parsed value has no readable \<open>type\<close>), or it is a
  value \<open>data\<close> with its \<open>type\<close>. What the handler does with a frame is the list of
  calls it makes, in order: a call into a store for the three types of the \<open>switch\<close>,
  calls of registered handlers otherwise.
\<close>

datatype 'd incoming = Unparsable | Data string 'd

datatype 'd call =
    UpdateCameraStatus 'd | AddEvent 'd | UpdateEvent 'd
  | Handler nat string 'd

text \<open>
  \<open>messageHandlersRef\<close> maps a type to the array of its handlers; a missing entry and
  an empty array are read alike. \<open>onMessage\<close> pushes the handler at the end; the
  function it returns removes the first occurrence of the handler.
\<close>

type_synonym registry = "string \<Rightarrow> nat list"

definition no_handlers :: registry where
  "no_handlers = (\<lambda>type. [])"

definition onMessage :: "string \<Rightarrow> nat \<Rightarrow> registry \<Rightarrow> registry" where
  "onMessage type handler reg = reg(type := reg type @ [handler])"

definition unsubscribe :: "string \<Rightarrow> nat \<Rightarrow> registry \<Rightarrow> registry" where
  "unsubscribe type handler reg = reg(type := remove1 handler (reg type))"

text \<open>
  A handler is known by its identity. When it is called it may call \<open>onMessage\<close> and
  functions returned by \<open>onMessage\<close>, which change the registry at once, and it may then
  throw. What it does may depend on the value it is called with and on everything that
  was called before: a behaviour gives, for the calls made so far, the handler and the
  value, the changes to the registry and whether the handler throws.
\<close>

datatype reg_op = Register string nat | Remove string nat

fun apply_op :: "reg_op \<Rightarrow> registry \<Rightarrow> registry" where
  "apply_op (Register type h) reg = onMessage type h reg"
| "apply_op (Remove type h) reg = unsubscribe type h reg"

type_synonym 'd behaviour = "'d call list \<Rightarrow> nat \<Rightarrow> 'd \<Rightarrow> reg_op list \<times> bool"

text \<open>
  \<open>handlers.forEach\<close> fixes the number of positions to visit when it starts and then
  reads the array position by position as it is at that moment: \<open>n\<close> positions are
  left to visit, \<open>k\<close> is the next one. A position beyond the current end of the array is
  passed over; a handler that throws ends the loop, and the surrounding \<open>catch\<close> logs
  the error.
\<close>

fun forEach_handler ::
  "'d behaviour \<Rightarrow> string \<Rightarrow> 'd \<Rightarrow> nat \<Rightarrow> nat \<Rightarrow> registry \<times> 'd call list
     \<Rightarrow> registry \<times> 'd call list" where
  "forEach_handler beh type d 0 k st = st"
| "forEach_handler beh type d (Suc n) k (reg, calls) =
     (if k < length (reg type)
      then (let h = reg type ! k;
                st' = (fold apply_op (fst (beh calls h d)) reg, calls @ [Handler h type d])
            in if snd (beh calls h d) then st'
               else forEach_handler beh type d n (Suc k) st')
      else forEach_handler beh type d n (Suc k) (reg, calls))"

definition onmessage ::
  "'d behaviour \<Rightarrow> 'd incoming \<Rightarrow> registry \<times> 'd call list \<Rightarrow> registry \<times> 'd call list" where
  "onmessage beh ev st =
     (case ev of
        Unparsable \<Rightarrow> st
      | Data type d \<Rightarrow>
          if type = ''camera_status'' then (fst st, snd st @ [UpdateCameraStatus d])
          else if type = ''event'' then (fst st, snd st @ [AddEvent d])
          else if type = ''event_update'' then (fst st, snd st @ [UpdateEvent d])
          else forEach_handler beh type d (length (fst st type)) 0 st)"

text \<open>
  A session is a sequence of subscriptions, unsubscriptions and received frames, handled
  one after the other; it starts with no handler and no call made.
\<close>

datatype 'd ws_event =
    Subscribe string nat | Unsubscribe string nat | Receive "'d incoming"

fun ws_step :: "'d behaviour \<Rightarrow> 'd ws_event \<Rightarrow> registry \<times> 'd call list
                \<Rightarrow> registry \<times> 'd call list" where
  "ws_step beh (Subscribe type h) (reg, calls) = (onMessage type h reg, calls)"
| "ws_step beh (Unsubscribe type h) (reg, calls) = (unsubscribe type h reg, calls)"
| "ws_step beh (Receive ev) st = onmessage beh ev st"

definition ws_session :: "'d behaviour \<Rightarrow> 'd ws_event list \<Rightarrow> registry \<times> 'd call list" where
  "ws_session beh evs = fold (ws_step beh) evs (no_handlers, [])"

text \<open>
  \<open>seen h type calls\<close> are the values handler \<open>h\<close> was called with for messages of
  \<open>type\<close>, in order; \<open>received evs\<close> are the frames received in a session and
  \<open>of_type type ms\<close> the values of the frames of that type, both in arrival order;
  \<open>repeat ns xs\<close> repeats each element of \<open>xs\<close> as often as \<open>ns\<close> says, in place.
\<close>

fun seen :: "nat \<Rightarrow> string \<Rightarrow> 'd call list \<Rightarrow> 'd list" where
  "seen h type [] = []"
| "seen h type (Handler h' type' d # cs) =
     (if h' = h \<and> type' = type then d # seen h type cs else seen h type cs)"
| "seen h type (c # cs) = seen h type cs"

fun received :: "'d ws_event list \<Rightarrow> 'd incoming list" where
  "received [] = []"
| "received (Receive m # evs) = m # received evs"
| "received (ev # evs) = received evs"

fun of_type :: "string \<Rightarrow> 'd incoming list \<Rightarrow> 'd list" where
  "of_type type [] = []"
| "of_type type (Data type' d # ms) =
     (if type' = type then d # of_type type ms else of_type type ms)"
| "of_type type (Unparsable # ms) = of_type type ms"

definition repeat :: "nat list \<Rightarrow> 'a list \<Rightarrow> 'a list" where
  "repeat ns xs = concat (map (\<lambda>(n, x). replicate n x) (zip ns xs))"

definition builtin_types :: "string set" where
  "builtin_types = {''camera_status'', ''event'', ''event_update''}"

text \<open>
  Sample behaviours: handlers that only look, a first handler that throws, and a first
  handler that unsubscribes itself when it is called.
\<close>

definition looks_only :: "nat behaviour" where
  "looks_only calls h d = ([], False)"

definition first_throws :: "nat behaviour" where
  "first_throws calls h d = ([], h = 1)"

definition first_leaves :: "nat behaviour" where
  "first_leaves calls h d = (if h = 1 then [Remove ''ptz'' 1] else [], False)"

definition example_registry :: registry where
  "example_registry = onMessage ''ptz'' 2 (onMessage ''ptz'' 1 no_handlers)"

definition example_messages :: "nat incoming list" where
  "example_messages = [Data ''ptz'' 0, Data ''event'' 5, Unparsable, Data ''ptz'' 1]"

section \<open>Form validation (validateForm and cameraSchema, frontend/src/utils/format.js)\<close>

text \<open>
  The values a form can hold. A string is a list of code units of some type \<open>'c\<close>; only
  its length and whether it is a URL are looked at. A number is a finite rational, an
  infinity or \<open>NaN\<close>. An object lists its properties, each name once; a property that is
  not listed reads as \<open>undefined\<close>.
\<close>

datatype jsnum = NaN | PosInfinity | NegInfinity | Finite rat

datatype 'c jsval =
    JUndefined | JNull | JBool bool | JNum jsnum | JStr "'c list"
  | JArray "'c jsval list" | JObject "(string \<times> 'c jsval) list"

definition get_prop :: "(string \<times> 'c jsval) list \<Rightarrow> string \<Rightarrow> 'c jsval" where
  "get_prop kvs k = (case map_of kvs k of None \<Rightarrow> JUndefined | Some v \<Rightarrow> v)"

text \<open>
  The messages of \<open>cameraSchema\<close>, named after what they say, and \<open>M_zod\<close> for the
  messages the zod library words itself (wrong type, missing value, not an integer).
\<close>

datatype message =
    M_name_required | M_max_100 | M_max_500 | M_rtsp_required | M_rtsp_invalid
  | M_port_range | M_zod

datatype zstr_check = MinLen nat message | MaxLen nat message | Url message

datatype znum_check = IsInt | NMin rat message | NMax rat message

datatype 'c ztype =
    ZString "zstr_check list" | ZNumber "znum_check list" | ZBoolean
  | ZOptional "'c ztype" | ZDefault "'c ztype" "'c jsval"

type_synonym issue = "string list \<times> message"

text \<open>
  The checks of a string and of a number each add an issue when they fail, and the
  following checks still run. \<open>is_url\<close> stands for the library's test of a URL.
\<close>

fun str_issues :: "('c list \<Rightarrow> bool) \<Rightarrow> string list \<Rightarrow> 'c list \<Rightarrow> zstr_check \<Rightarrow> issue list" where
  "str_issues is_url p s (MinLen n m) = (if length s < n then [(p, m)] else [])"
| "str_issues is_url p s (MaxLen n m) = (if length s > n then [(p, m)] else [])"
| "str_issues is_url p s (Url m) = (if \<not> is_url s then [(p, m)] else [])"

fun isInteger :: "jsnum \<Rightarrow> bool" where
  "isInteger (Finite r) = (of_int \<lfloor>r\<rfloor> = r)"
| "isInteger _ = False"

fun num_less :: "jsnum \<Rightarrow> rat \<Rightarrow> bool" where
  "num_less (Finite r) v = (r < v)"
| "num_less NegInfinity v = True"
| "num_less _ v = False"

fun num_greater :: "jsnum \<Rightarrow> rat \<Rightarrow> bool" where
  "num_greater (Finite r) v = (r > v)"
| "num_greater PosInfinity v = True"
| "num_greater _ v = False"

fun num_issues :: "string list \<Rightarrow> jsnum \<Rightarrow> znum_check \<Rightarrow> issue list" where
  "num_issues p x IsInt = (if \<not> isInteger x then [(p, M_zod)] else [])"
| "num_issues p x (NMin v m) = (if num_less x v then [(p, m)] else [])"
| "num_issues p x (NMax v m) = (if num_greater x v then [(p, m)] else [])"

text \<open>
  Parsing one field at path \<open>p\<close> gives the issues found. A value of the wrong type gives
  one issue and its checks do not run; \<open>optional\<close> accepts \<open>undefined\<close>; \<open>default\<close> puts
  its value in the place of \<open>undefined\<close>.
\<close>

fun parse_field :: "('c list \<Rightarrow> bool) \<Rightarrow> 'c ztype \<Rightarrow> string list \<Rightarrow> 'c jsval \<Rightarrow> issue list" where
  "parse_field is_url (ZString cs) p v =
     (case v of JStr s \<Rightarrow> concat (map (str_issues is_url p s) cs) | _ \<Rightarrow> [(p, M_zod)])"
| "parse_field is_url (ZNumber cs) p v =
     (case v of
        JNum NaN \<Rightarrow> [(p, M_zod)]
      | JNum x \<Rightarrow> concat (map (num_issues p x) cs)
      | _ \<Rightarrow> [(p, M_zod)])"
| "parse_field is_url ZBoolean p v = (case v of JBool b \<Rightarrow> [] | _ \<Rightarrow> [(p, M_zod)])"
| "parse_field is_url (ZOptional t) p v =
     (if v = JUndefined then [] else parse_field is_url t p v)"
| "parse_field is_url (ZDefault t d) p v =
     parse_field is_url t p (if v = JUndefined then d else v)"

text \<open>
  An object schema lists its fields in order. A value that is not an object gives one
  issue at the empty path; otherwise every field of the schema is parsed, in order, and
  properties the schema does not name are ignored.
\<close>

definition parse_object ::
  "('c list \<Rightarrow> bool) \<Rightarrow> (string \<times> 'c ztype) list \<Rightarrow> 'c jsval \<Rightarrow> issue list" where
  "parse_object is_url shape data =
     (case data of
        JObject kvs \<Rightarrow> concat (map (\<lambda>(k, t). parse_field is_url t [k] (get_prop kvs k)) shape)
      | _ \<Rightarrow> [([], M_zod)])"

definition cameraSchema :: "(string \<times> 'c ztype) list" where
  "cameraSchema =
     [(''name'', ZString [MinLen 1 M_name_required, MaxLen 100 M_max_100]),
      (''description'', ZOptional (ZString [MaxLen 500 M_max_500])),
      (''rtsp_url'', ZString [MinLen 1 M_rtsp_required, Url M_rtsp_invalid]),
      (''username'', ZOptional (ZString [])),
      (''password'', ZOptional (ZString [])),
      (''location'', ZOptional (ZString [MaxLen 100 M_max_100])),
      (''recording_enabled'', ZDefault ZBoolean (JBool True)),
      (''motion_detection'', ZDefault ZBoolean (JBool False)),
      (''ptz_enabled'', ZDefault ZBoolean (JBool False)),
      (''onvif_enabled'', ZDefault ZBoolean (JBool False)),
      (''onvif_port'', ZOptional (ZNumber [IsInt, NMin 1 M_port_range, NMax 65535 M_port_range])),
      (''onvif_path'', ZOptional (ZString []))]"

text \<open>
  \<open>validateForm\<close>: success with \<open>errors: null\<close> when parsing raises no error; otherwise
  each issue is stored under its path joined by dots, a later issue replacing an earlier
  one of the same path. \<open>schema.parse\<close> raises a \<open>ZodError\<close> exactly when there are
  issues, and \<open>error.errors\<close> lists them (zod 3); the branch of \<open>validateForm\<close> for
  other exceptions is not reached.
\<close>

record validation =
  success :: bool
  errors :: "(string \<rightharpoonup> message) option"

fun join :: "string list \<Rightarrow> string" where
  "join [] = []"
| "join [x] = x"
| "join (x # y # ys) = x @ ''.'' @ join (y # ys)"

definition add_issue :: "issue \<Rightarrow> (string \<rightharpoonup> message) \<Rightarrow> (string \<rightharpoonup> message)" where
  "add_issue err errs = errs(join (fst err) \<mapsto> snd err)"

definition collect_errors :: "issue list \<Rightarrow> (string \<rightharpoonup> message)" where
  "collect_errors issues = fold add_issue issues Map.empty"

definition validateForm ::
  "('c list \<Rightarrow> bool) \<Rightarrow> (string \<times> 'c ztype) list \<Rightarrow> 'c jsval \<Rightarrow> validation" where
  "validateForm is_url schema data =
     (case parse_object is_url schema data of
        [] \<Rightarrow> \<lparr> success = True, errors = None \<rparr>
      | issues \<Rightarrow> \<lparr> success = False, errors = Some (collect_errors issues) \<rparr>)"

text \<open>
  \<open>handleSubmit\<close> of \<open>CameraForm\<close> (frontend/src/components/cameras/CameraCard.jsx): the form holds
  its data and its error map; \<open>submitted\<close> lists the configurations passed on to
  \<open>createCamera\<close> or \<open>updateCamera\<close>.
\<close>

record 'c camera_form =
  formData :: "'c jsval"
  form_errors :: "(string \<rightharpoonup> message) option"
  submitted :: "'c jsval list"

definition handleSubmit :: "('c list \<Rightarrow> bool) \<Rightarrow> 'c camera_form \<Rightarrow> 'c camera_form" where
  "handleSubmit is_url form =
     (let validation = validateForm is_url cameraSchema (formData form)
      in if \<not> success validation then form\<lparr> form_errors := errors validation \<rparr>
         else form\<lparr> submitted := submitted form @ [formData form] \<rparr>)"

text \<open>
  The schema read as a predicate on the data: what each field of \<open>cameraSchema\<close> asks
  of the property of its name.
\<close>

definition string_within :: "nat \<Rightarrow> nat \<Rightarrow> 'c jsval \<Rightarrow> bool" where
  "string_within lo hi v = (case v of JStr s \<Rightarrow> lo \<le> length s \<and> length s \<le> hi | _ \<Rightarrow> False)"

definition any_string :: "'c jsval \<Rightarrow> bool" where
  "any_string v = (case v of JStr s \<Rightarrow> True | _ \<Rightarrow> False)"

definition url_string :: "('c list \<Rightarrow> bool) \<Rightarrow> 'c jsval \<Rightarrow> bool" where
  "url_string is_url v = (case v of JStr s \<Rightarrow> 1 \<le> length s \<and> is_url s | _ \<Rightarrow> False)"

definition boolean :: "'c jsval \<Rightarrow> bool" where
  "boolean v = (case v of JBool b \<Rightarrow> True | _ \<Rightarrow> False)"

definition port_number :: "'c jsval \<Rightarrow> bool" where
  "port_number v =
     (case v of JNum (Finite r) \<Rightarrow> of_int \<lfloor>r\<rfloor> = r \<and> 1 \<le> r \<and> r \<le> 65535 | _ \<Rightarrow> False)"

definition absent_or :: "('c jsval \<Rightarrow> bool) \<Rightarrow> 'c jsval \<Rightarrow> bool" where
  "absent_or P v = (v = JUndefined \<or> P v)"

definition satisfies_cameraSchema :: "('c list \<Rightarrow> bool) \<Rightarrow> 'c jsval \<Rightarrow> bool" where
  "satisfies_cameraSchema is_url data =
     (case data of
        JObject kvs \<Rightarrow>
          string_within 1 100 (get_prop kvs ''name'')
        \<and> absent_or (string_within 0 500) (get_prop kvs ''description'')
        \<and> url_string is_url (get_prop kvs ''rtsp_url'')
        \<and> absent_or any_string (get_prop kvs ''username'')
        \<and> absent_or any_string (get_prop kvs ''password'')
        \<and> absent_or (string_within 0 100) (get_prop kvs ''location'')
        \<and> absent_or boolean (get_prop kvs ''recording_enabled'')
        \<and> absent_or boolean (get_prop kvs ''motion_detection'')
        \<and> absent_or boolean (get_prop kvs ''ptz_enabled'')
        \<and> absent_or boolean (get_prop kvs ''onvif_enabled'')
        \<and> absent_or port_number (get_prop kvs ''onvif_port'')
        \<and> absent_or any_string (get_prop kvs ''onvif_path'')
      | _ \<Rightarrow> False)"

text \<open>
  The error a field shows, read off the schema field by field: the message stored under
  the field's name when its value breaks the field's rule, and none when it keeps it.
  Where a value breaks two rules of a field the later rule's message is the one shown.
  \<open>expected_errors\<close> is the error map this gives for a whole form; data that is not
  an object has the one error of the library at the empty path.
\<close>

definition required_text_error :: "nat \<Rightarrow> message \<Rightarrow> nat \<Rightarrow> message \<Rightarrow> 'c jsval \<Rightarrow> message option" where
  "required_text_error lo too_short hi too_long v =
     (case v of
        JStr s \<Rightarrow> if hi < length s then Some too_long
                  else if length s < lo then Some too_short else None
      | _ \<Rightarrow> Some M_zod)"

definition optional_text_error :: "nat \<Rightarrow> message \<Rightarrow> 'c jsval \<Rightarrow> message option" where
  "optional_text_error hi too_long v =
     (case v of
        JUndefined \<Rightarrow> None
      | JStr s \<Rightarrow> if hi < length s then Some too_long else None
      | _ \<Rightarrow> Some M_zod)"

definition url_text_error :: "('c list \<Rightarrow> bool) \<Rightarrow> 'c jsval \<Rightarrow> message option" where
  "url_text_error is_url v =
     (case v of
        JStr s \<Rightarrow> if \<not> is_url s then Some M_rtsp_invalid
                  else if length s < 1 then Some M_rtsp_required else None
      | _ \<Rightarrow> Some M_zod)"

definition free_text_error :: "'c jsval \<Rightarrow> message option" where
  "free_text_error v = (case v of JUndefined \<Rightarrow> None | JStr s \<Rightarrow> None | _ \<Rightarrow> Some M_zod)"

definition flag_error :: "'c jsval \<Rightarrow> message option" where
  "flag_error v = (case v of JUndefined \<Rightarrow> None | JBool b \<Rightarrow> None | _ \<Rightarrow> Some M_zod)"

definition port_error :: "'c jsval \<Rightarrow> message option" where
  "port_error v =
     (case v of
        JUndefined \<Rightarrow> None
      | JNum (Finite r) \<Rightarrow>
          if r < 1 \<or> 65535 < r then Some M_port_range
          else if of_int \<lfloor>r\<rfloor> \<noteq> r then Some M_zod else None
      | JNum PosInfinity \<Rightarrow> Some M_port_range
      | JNum NegInfinity \<Rightarrow> Some M_port_range
      | _ \<Rightarrow> Some M_zod)"

definition field_error :: "('c list \<Rightarrow> bool) \<Rightarrow> string \<Rightarrow> 'c jsval \<Rightarrow> message option" where
  "field_error is_url k v =
     (if k = ''name'' then required_text_error 1 M_name_required 100 M_max_100 v
      else if k = ''description'' then optional_text_error 500 M_max_500 v
      else if k = ''rtsp_url'' then url_text_error is_url v
      else if k = ''username'' then free_text_error v
      else if k = ''password'' then free_text_error v
      else if k = ''location'' then optional_text_error 100 M_max_100 v
      else if k = ''recording_enabled'' then flag_error v
      else if k = ''motion_detection'' then flag_error v
      else if k = ''ptz_enabled'' then flag_error v
      else if k = ''onvif_enabled'' then flag_error v
      else if k = ''onvif_port'' then port_error v
      else if k = ''onvif_path'' then free_text_error v
      else None)"

definition expected_errors :: "('c list \<Rightarrow> bool) \<Rightarrow> 'c jsval \<Rightarrow> (string \<rightharpoonup> message)" where
  "expected_errors is_url data =
     (case data of
        JObject kvs \<Rightarrow> (\<lambda>k. field_error is_url k (get_prop kvs k))
      | _ \<Rightarrow> [[] \<mapsto> M_zod])"

definition single_error :: "string \<Rightarrow> message option \<Rightarrow> (string \<rightharpoonup> message)" where
  "single_error k e = (case e of None \<Rightarrow> Map.empty | Some m \<Rightarrow> [k \<mapsto> m])"

text \<open>\<open>merge_errors\<close> puts the errors of several fields into one map.\<close>

fun merge_errors :: "(string \<times> message option) list \<Rightarrow> (string \<rightharpoonup> message)" where
  "merge_errors [] = Map.empty"
| "merge_errors ((k, e) # fs) = single_error k e ++ merge_errors fs"

text \<open>Sample data: a URL test, a configuration that passes and one that does not.\<close>

definition example_is_url :: "string \<Rightarrow> bool" where
  "example_is_url s = (take 7 s = ''rtsp://'' \<and> length s > 7)"

definition good_config :: "char jsval" where
  "good_config = JObject
     [(''name'', JStr ''gate''), (''description'', JStr ''''),
      (''rtsp_url'', JStr ''rtsp://10.0.0.7/live''), (''recording_enabled'', JBool True),
      (''onvif_port'', JNum (Finite 80)), (''extra'', JNull)]"

definition bad_config :: "char jsval" where
  "bad_config = JObject
     [(''name'', JStr ''''), (''rtsp_url'', JStr ''''), (''onvif_port'', JStr ''80'')]"

section \<open>The frame distributor\<close>

text \<open>
  Modelled from the spec: the Source Connection and the Frame Distributor of the
  recording pipeline, whose code is not among the sources. A frame carries a timestamp
  and a sequence number; the Source Connection numbers the frames it produces one after
  the other. The distributor gives each attached consumer a queue of bounded capacity
  and, when a frame arrives at a full queue, discards the least recently buffered frame
  (drop-oldest) or the most recently buffered one (drop-newest) to make room; the
  producer never waits. A consumer takes frames from the front of its queue.
\<close>

record frame =
  seq :: nat
  timestamp :: nat

datatype drop_policy = DropOldest | DropNewest

record channel =
  policy :: drop_policy
  capacity :: nat
  queue :: "frame list"

record distributor =
  next_seq :: nat
  channels :: "nat \<rightharpoonup> channel"
  observed :: "nat \<Rightarrow> frame list"

definition distributor_init :: distributor where
  "distributor_init = \<lparr> next_seq = 0, channels = Map.empty, observed = (\<lambda>c. []) \<rparr>"

text \<open>
  Modelled from the spec: the overflow policy of a consumer's bounded queue (the
  distributor's code is missing). A queue that is not full takes the frame at its end. A
  full queue first discards its least recently buffered frame under drop-oldest, its most
  recently buffered frame under drop-newest. A queue of capacity 0 holds nothing.
\<close>

definition enqueue :: "frame \<Rightarrow> channel \<Rightarrow> channel" where
  "enqueue f ch =
     (if capacity ch = 0 then ch
      else if length (queue ch) < capacity ch then ch\<lparr> queue := queue ch @ [f] \<rparr>
      else (case policy ch of
              DropOldest \<Rightarrow> ch\<lparr> queue := tl (queue ch) @ [f] \<rparr>
            | DropNewest \<Rightarrow> ch\<lparr> queue := butlast (queue ch) @ [f] \<rparr>))"

text \<open>
  Modelled from the spec: \<open>attach\<close> and \<open>detach\<close> of the distributor, the production of
  a frame by the Source Connection and the taking of a frame by a consumer (all missing
  from the sources). \<open>attach\<close> gives the consumer a fresh, empty queue; \<open>detach\<close> removes
  the queue; a produced frame gets the next sequence number and is offered to every
  attached queue; \<open>observed\<close> lists what each consumer has taken so far.
\<close>

definition attach :: "nat \<Rightarrow> drop_policy \<Rightarrow> nat \<Rightarrow> distributor \<Rightarrow> distributor" where
  "attach c pol cap s =
     s\<lparr> channels := (channels s)(c \<mapsto> \<lparr> policy = pol, capacity = cap, queue = [] \<rparr>) \<rparr>"

definition detach :: "nat \<Rightarrow> distributor \<Rightarrow> distributor" where
  "detach c s = s\<lparr> channels := (channels s)(c := None) \<rparr>"

definition produce :: "nat \<Rightarrow> distributor \<Rightarrow> distributor" where
  "produce ts s =
     (let f = \<lparr> seq = next_seq s, timestamp = ts \<rparr>
      in s\<lparr> next_seq := Suc (next_seq s),
            channels := (\<lambda>c. map_option (enqueue f) (channels s c)) \<rparr>)"

definition consume :: "nat \<Rightarrow> distributor \<Rightarrow> distributor" where
  "consume c s =
     (case channels s c of
        None \<Rightarrow> s
      | Some ch \<Rightarrow>
          (case queue ch of
             [] \<Rightarrow> s
           | f # fs \<Rightarrow>
               s\<lparr> channels := (channels s)(c \<mapsto> ch\<lparr> queue := fs \<rparr>),
                  observed := (observed s)(c := observed s c @ [f]) \<rparr>))"

datatype dist_action =
    Attach nat drop_policy nat | Detach nat | Produce nat | Consume nat

fun dist_step :: "dist_action \<Rightarrow> distributor \<Rightarrow> distributor" where
  "dist_step (Attach c pol cap) s = attach c pol cap s"
| "dist_step (Detach c) s = detach c s"
| "dist_step (Produce ts) s = produce ts s"
| "dist_step (Consume c) s = consume c s"

definition dist_run :: "dist_action list \<Rightarrow> distributor" where
  "dist_run acts = fold dist_step acts distributor_init"

text \<open>
  The invariant behind the ordering: for each consumer, the frames taken followed by the
  frames still queued are strictly increasing in sequence number and below the next
  number to be given out.
\<close>

definition pending :: "distributor \<Rightarrow> nat \<Rightarrow> frame list" where
  "pending s c = (case channels s c of None \<Rightarrow> [] | Some ch \<Rightarrow> queue ch)"

definition in_order :: "distributor \<Rightarrow> bool" where
  "in_order s \<longleftrightarrow>
     (\<forall>c. sorted_wrt (<) (map seq (observed s c @ pending s c))
          \<and> (\<forall>f \<in> set (observed s c @ pending s c). seq f < next_seq s))"

text \<open>
  A consumer with a queue of two frames under drop-oldest that falls behind: of four
  frames it sees the first, the third and the fourth.
\<close>

definition slow_consumer :: "dist_action list" where
  "slow_consumer =
     [Attach 1 DropOldest 2, Produce 10, Consume 1, Produce 20, Produce 30, Produce 40,
      Consume 1, Consume 1]"

section \<open>Properties of the stores\<close>

lemma events_fold_addEvent:
  "events (fold addEvent es s) = rev es @ events s"
  by (induction es arbitrary: s) (simp_all add: addEvent_def)

text \<open>
  C4 (as stated, refuted): the claim bounds the stored event list by a fixed capacity such
  as 1000. Adding 1001 events to the empty store leaves 1001 events in it.
\<close>

theorem addEvent_exceeds_capacity:
  "\<not> length (events (fold addEvent (replicate 1001 (0::nat)) (eventStore_init ()))) \<le> 1000"
  by (simp only: events_fold_addEvent) (simp add: eventStore_init_def)

text \<open>
  C4 (amended): \<open>addEvent\<close> puts the new event at the head of the list and keeps every
  stored event; after any sequence of additions the list holds all of them, newest first,
  and its length has grown by the number of additions. Nothing is dropped.
\<close>

theorem addEvent_keeps_all:
  "events (addEvent e s) = e # events s
   \<and> events (fold addEvent es s) = rev es @ events s
   \<and> length (events (fold addEvent es s)) = length es + length (events s)"
  by (simp add: events_fold_addEvent) (simp add: addEvent_def)

text \<open>
  C10 (the code departs from the claim): the claim has \<open>updateCameraStatus\<close> change
  nothing but the status of the cameras whose id matches. In the initial store no camera
  is selected; a call without a camera id (a \<open>camera_status\<close> message that has no
  \<open>camera_id\<close>) makes \<open>selectedCamera\<close> an object that holds the status alone.
\<close>

theorem updateCameraStatus_without_id:
  "selectedCamera (cameraStore_init :: string cameraStore) = None
   \<and> selectedCamera (updateCameraStatus None (Some ''offline'') (cameraStore_init :: string cameraStore))
       = Some [''status'' \<mapsto> ''offline'']"
  by (simp add: updateCameraStatus_def cameraStore_init_def optional_id_def spread_def)

text \<open>
  Everywhere else the frame property holds: when the call has a camera id, or a camera
  is selected, \<open>updateCameraStatus\<close> keeps the number and order of the cameras, every
  camera whose id differs, and every property other than \<open>status\<close> of the cameras whose
  id matches, which get the new status; the selected camera is treated the same way; the
  other fields of the store are unchanged, and so is the camera list when no camera has
  the id.
\<close>

lemma updateCameraStatus_frame:
  fixes state :: "('v, 'y) cameraStore_scheme"
  assumes "cameraId \<noteq> None \<or> selectedCamera state \<noteq> None"
  shows "(let state' = updateCameraStatus cameraId st state in
      length (cameras state') = length (cameras state)
    \<and> (\<forall>i < length (cameras state).
          (cameras state ! i) ''id'' \<noteq> cameraId \<longrightarrow> cameras state' ! i = cameras state ! i)
    \<and> (\<forall>i < length (cameras state).
          (cameras state ! i) ''id'' = cameraId \<longrightarrow>
            (cameras state' ! i) ''status'' = st
          \<and> (\<forall>k. k \<noteq> ''status'' \<longrightarrow> (cameras state' ! i) k = (cameras state ! i) k))
    \<and> (case selectedCamera state of
          None \<Rightarrow> selectedCamera state' = None
        | Some sel \<Rightarrow>
            (sel ''id'' \<noteq> cameraId \<longrightarrow> selectedCamera state' = Some sel)
          \<and> (sel ''id'' = cameraId \<longrightarrow> selectedCamera state' = Some (sel(''status'' := st))))
    \<and> isLoading state' = isLoading state
    \<and> error state' = error state
    \<and> filters state' = filters state
    \<and> cameraStore.more state' = cameraStore.more state
    \<and> ((\<forall>c \<in> set (cameras state). c ''id'' \<noteq> cameraId) \<longrightarrow> cameras state' = cameras state))"
  using assms unfolding Let_def updateCameraStatus_def
  by (auto simp: optional_id_def spread_def split: option.splits intro: map_idI)

lemma updateCameraStatus_frame_example:
  "(let state = example_cameraStore; state' = updateCameraStatus (Some ''2'') (Some ''offline'') state
    in cameras state' ! 0 = cameras state ! 0
     \<and> (cameras state' ! 1) ''status'' = Some ''offline''
     \<and> (cameras state' ! 1) ''name'' = Some ''yard''
     \<and> selectedCamera state'
          = Some [''id'' \<mapsto> ''2'', ''name'' \<mapsto> ''yard'', ''status'' \<mapsto> ''offline''])"
  using updateCameraStatus_frame [of "Some ''2''" example_cameraStore "Some ''offline''"]
  by (simp add: updateCameraStatus_def example_cameraStore_def Let_def optional_id_def spread_def)

section \<open>Round trip of durations\<close>

lemma digit_char_props:
  assumes "d < 10"
  shows "is_digit (digit_char d)" and "digit_val (digit_char d) = d"
    and "digit_char d \<noteq> CHR '':''"
proof -
  from assms have "d \<in> {0, 1, 2, 3, 4, 5, 6, 7, 8, 9}"
    by auto
  then have "is_digit (digit_char d) \<and> digit_val (digit_char d) = d
             \<and> digit_char d \<noteq> CHR '':''"
    by (auto simp: digit_char_def is_digit_def digit_val_def)
  then show "is_digit (digit_char d)" and "digit_val (digit_char d) = d"
    and "digit_char d \<noteq> CHR '':''"
    by simp_all
qed

lemma String_nat_digits: "list_all is_digit (String_nat n)"
proof (induction n rule: String_nat.induct)
  case (1 n)
  show ?case
  proof (cases "n < 10")
    case True
    then show ?thesis by (subst String_nat.simps) (simp add: digit_char_props)
  next
    case False
    with 1 show ?thesis by (subst String_nat.simps) (simp add: digit_char_props)
  qed
qed

lemma String_nat_no_colon: "CHR '':'' \<notin> set (String_nat n)"
proof (induction n rule: String_nat.induct)
  case (1 n)
  show ?case
  proof (cases "n < 10")
    case True
    then show ?thesis
      using digit_char_props(3) [of n] by (subst String_nat.simps) auto
  next
    case False
    with 1 show ?thesis
      using digit_char_props(3) [of "n mod 10"] by (subst String_nat.simps) auto
  qed
qed

lemma String_nat_value: "fold (\<lambda>c n. 10 * n + digit_val c) (String_nat n) 0 = n"
proof (induction n rule: String_nat.induct)
  case (1 n)
  show ?case
  proof (cases "n < 10")
    case True
    then show ?thesis by (subst String_nat.simps) (simp add: digit_char_props)
  next
    case False
    with 1 show ?thesis by (subst String_nat.simps) (simp add: digit_char_props)
  qed
qed

lemma zero_char_props: "is_digit CHR ''0''" "digit_val CHR ''0'' = 0"
  by (simp_all add: is_digit_def digit_val_def)

lemma fold_leading_zeros:
  "fold (\<lambda>c n. 10 * n + digit_val c) (replicate k CHR ''0'' @ s) 0
     = fold (\<lambda>c n. 10 * n + digit_val c) s 0"
  by (induction k) (simp_all add: zero_char_props)

lemma padStart_no_colon: "CHR '':'' \<notin> set (padStart k CHR ''0'' (String_nat n))"
  using String_nat_no_colon [of n] by (auto simp: padStart_def)

lemma split_acc_no_sep: "sep \<notin> set s \<Longrightarrow> split_acc sep acc s = [rev acc @ s]"
  by (induction s arbitrary: acc) auto

lemma split_acc_sep:
  "sep \<notin> set s \<Longrightarrow> split_acc sep acc (s @ sep # rest) = (rev acc @ s) # split_acc sep [] rest"
  by (induction s arbitrary: acc) auto

lemma split_two:
  "sep \<notin> set a \<Longrightarrow> sep \<notin> set b \<Longrightarrow> split sep (a @ [sep] @ b) = [a, b]"
  by (simp add: split_def split_acc_sep split_acc_no_sep)

lemma split_three:
  "sep \<notin> set a \<Longrightarrow> sep \<notin> set b \<Longrightarrow> sep \<notin> set c
     \<Longrightarrow> split sep (a @ [sep] @ b @ [sep] @ c) = [a, b, c]"
  by (simp add: split_def split_acc_sep split_acc_no_sep)


lemma bit_length_less: "n < 2 ^ bit_length n"
proof (induction n rule: bit_length.induct)
  case (1 n)
  show ?case
  proof (cases "n = 0")
    case True
    then show ?thesis by simp
  next
    case False
    with 1 have "n div 2 < 2 ^ bit_length (n div 2)" by simp
    then have "n < 2 * 2 ^ bit_length (n div 2)" by linarith
    with False show ?thesis by (subst bit_length.simps) simp
  qed
qed

lemma bit_length_le: "n < 2 ^ j \<Longrightarrow> bit_length n \<le> j"
proof (induction j arbitrary: n)
  case 0
  then show ?case by (simp add: bit_length.simps)
next
  case (Suc j)
  show ?case
  proof (cases "n = 0")
    case True
    then show ?thesis by (simp add: bit_length.simps)
  next
    case False
    from Suc.prems have "n div 2 < 2 ^ j" by simp
    then have "bit_length (n div 2) \<le> j" by (rule Suc.IH)
    with False show ?thesis by (subst bit_length.simps) simp
  qed
qed

lemma round_half_even_dvd: "0 < q \<Longrightarrow> q dvd p \<Longrightarrow> round_half_even p q * q = p"
  by (auto simp: round_half_even_def Let_def)

lemma round_half_even_bounds:
  "p div q \<le> round_half_even p q" "round_half_even p q \<le> p div q + 1"
  "2 * (p mod q) < q \<Longrightarrow> round_half_even p q = p div q"
  by (simp_all add: round_half_even_def Let_def)

lemma nearest_double_small: "n < 2 ^ 53 \<Longrightarrow> nearest_double n = Some n"
  by (simp add: nearest_double_def)

lemma nearest_double_multiple:
  assumes "n < 2 ^ j" and "2 ^ (j - 53) dvd n" and "j \<le> 1024"
  shows "nearest_double n = Some n"
proof (cases "n < 2 ^ 53")
  case True
  then show ?thesis by (rule nearest_double_small)
next
  case False
  from assms(1) have "bit_length n \<le> j" by (rule bit_length_le)
  then have "(2::nat) ^ (bit_length n - 53) dvd 2 ^ (j - 53)"
    by (intro le_imp_power_dvd) simp
  then have "2 ^ (bit_length n - 53) dvd n"
    using assms(2) by (rule dvd_trans)
  then have r: "round_half_even n (2 ^ (bit_length n - 53)) * 2 ^ (bit_length n - 53) = n"
    by (intro round_half_even_dvd) simp_all
  have "(2::nat) ^ j \<le> 2 ^ 1024"
    using assms(3) by (intro power_increasing) simp_all
  with assms(1) have "n < 2 ^ 1024" by linarith
  with False r show ?thesis
    by (simp add: nearest_double_def Let_def)
qed

lemma nearest_double_milliseconds:
  assumes "s \<le> 72057594037928"
  shows "nearest_double (s * 1000) = Some (s * 1000)"
proof (cases "s * 1000 < 2 ^ 56")
  case True
  have "(8::nat) dvd s * 1000" by (rule dvd_mult) simp
  then have "(2::nat) ^ (56 - 53) dvd s * 1000" by simp
  with True show ?thesis by (intro nearest_double_multiple [where j = 56]) simp_all
next
  case False
  then have "72057594037927936 \<le> s * 1000" by simp
  with assms have s: "s = 72057594037928" by linarith
  have "(72057594037928000::nat) < 2 ^ 57" by simp
  moreover have "(2::nat) ^ (57 - 53) dvd 72057594037928000" by simp
  ultimately have "nearest_double 72057594037928000 = Some 72057594037928000"
    by (intro nearest_double_multiple [where j = 57]) simp_all
  with s show ?thesis by simp
qed

text \<open>
  The floor of a rounded quotient is the integer quotient when dividend and divisor
  have a common divisor \<open>g\<close> that is large for the size of the dividend: the quotient
  is then too far below the next integer to be rounded up to it.
\<close>

lemma rounded_scaled_quotient:
  assumes "r < b" and "r + g \<le> b" and "b < 2 * (g * 2 ^ k)"
  shows "round_half_even ((q * b + r) * 2 ^ k) b div 2 ^ k = q"
proof -
  let ?P = "(q * b + r) * 2 ^ k"
  let ?t = "(r * 2 ^ k) div b"
  let ?rem = "(r * 2 ^ k) mod b"
  let ?m = "round_half_even ?P b"
  from assms(1) have b: "0 < b" by simp
  have P: "?P = q * 2 ^ k * b + r * 2 ^ k"
    by (simp add: algebra_simps)
  have d: "?P div b = q * 2 ^ k + ?t"
    unfolding P using b by simp
  have md: "?P mod b = ?rem"
    unfolding P by simp
  have "r * 2 ^ k < 2 ^ k * b"
    using assms(1) by simp
  then have t: "?t < 2 ^ k"
    using b by (simp add: less_mult_imp_div_less mult.commute)
  have lo: "q * 2 ^ k \<le> ?m"
    using round_half_even_bounds(1) [of ?P b] d by simp
  have hi: "?m < (q + 1) * 2 ^ k"
  proof (cases "?t + 1 < 2 ^ k")
    case True
    have "?m \<le> q * 2 ^ k + ?t + 1"
      using round_half_even_bounds(2) [of ?P b] d by simp
    with True show ?thesis by (simp add: algebra_simps)
  next
    case False
    with t have te: "?t + 1 = 2 ^ k" by simp
    have split: "r * 2 ^ k = ?t * b + ?rem"
      by simp
    have "(?t + 1) * b = 2 ^ k * b"
      using te by simp
    then have tb: "?t * b + b = 2 ^ k * b"
      by (simp add: algebra_simps)
    have "(r + g) * 2 ^ k \<le> b * 2 ^ k"
      using assms(2) by (rule mult_le_mono1)
    then have le: "r * 2 ^ k + g * 2 ^ k \<le> 2 ^ k * b"
      by (simp add: algebra_simps)
    from split tb le have "g * 2 ^ k + ?rem \<le> b"
      by linarith
    with assms(3) have "2 * ?rem < b"
      by linarith
    then have "?m = ?P div b"
      using round_half_even_bounds(3) [of ?P b] md by simp
    with d t show ?thesis
      by (simp add: algebra_simps)
  qed
  from lo hi show ?thesis
    by (intro div_nat_eqI) (simp_all add: algebra_simps)
qed

lemma floor_quotient_common_divisor:
  assumes "g dvd a" and "g dvd b" and "b < 2 ^ 53" and "a < 2 ^ (52 + e)"
    and "2 ^ e \<le> b" and "2 ^ e \<le> 2 * g" and "e \<le> 1000"
  shows "floor_quotient a b = a div b"
proof -
  define k0 where "k0 = 52 + bit_length b - bit_length a"
  define k where "k = min (if b * 2 ^ 52 \<le> a * 2 ^ k0 then k0 else k0 + 1) 1074"
  from assms(5) have b: "0 < b"
    by (cases "b = 0") simp_all
  have "(2::nat) ^ (52 + e) \<le> b * 2 ^ 52"
    using assms(5) by (simp add: power_add mult.commute)
  with assms(4) have small: "\<not> b * 2 ^ 52 \<le> a" by linarith
  have la: "bit_length a \<le> 52 + e" using assms(4) by (rule bit_length_le)
  have lb: "bit_length b \<le> 53" using assms(3) by (rule bit_length_le)
  from la lb assms(7) have "bit_length b \<le> k0 + e" and "k0 \<le> 1074"
    by (simp_all add: k0_def)
  moreover have "k0 \<le> k \<or> k = 1074"
    by (simp add: k_def min_def)
  ultimately have "bit_length b \<le> k + e" using lb by linarith
  then have "(2::nat) ^ bit_length b \<le> 2 ^ (k + e)"
    by (intro power_increasing) simp_all
  also have "\<dots> = 2 ^ e * 2 ^ k" by (simp add: power_add)
  also have "\<dots> \<le> 2 * g * 2 ^ k"
    using assms(6) by (rule mult_le_mono1)
  finally have bk: "b < 2 * (g * 2 ^ k)"
    using bit_length_less [of b] by (simp add: mult.assoc)
  let ?r = "a mod b"
  have r: "?r < b" using b by simp
  have "g dvd b - ?r"
    using assms(1,2) by (intro dvd_diff_nat) (simp_all add: dvd_mod)
  moreover have "0 < b - ?r" using r by simp
  ultimately have "g \<le> b - ?r" by (rule dvd_imp_le)
  with r have rg: "?r + g \<le> b" by simp
  have "round_half_even ((a div b * b + ?r) * 2 ^ k) b div 2 ^ k = a div b"
    using r rg bk by (rule rounded_scaled_quotient)
  then have "round_half_even (a * 2 ^ k) b div 2 ^ k = a div b"
    by simp
  moreover have "floor_quotient a b = round_half_even (a * 2 ^ k) b div 2 ^ k"
    unfolding floor_quotient_def k_def k0_def by (simp only: small if_False Let_def)
  ultimately show ?thesis by simp
qed

lemma floor_quotient_exact:
  assumes "1000 dvd a" and "1000 dvd b" and "0 < b" and "b < 2 ^ 53" and "a < 2 ^ 57"
  shows "floor_quotient a b = a div b"
proof -
  from assms(2,3) have "1000 \<le> b"
    by (auto dest: dvd_imp_le)
  then have "2 ^ 5 \<le> b" by simp
  with assms show ?thesis
    by (intro floor_quotient_common_divisor [where g = 1000 and e = 5]) simp_all
qed

lemma Number_String_nat: "n < 2 ^ 53 \<Longrightarrow> Number (String_nat n) = Some (Num n)"
  by (simp add: Number_def String_nat_digits String_nat_value nearest_double_small)

lemma Number_padStart:
  assumes "n < 2 ^ 53"
  shows "Number (padStart k CHR ''0'' (String_nat n)) = Some (Num n)"
proof -
  have d: "list_all is_digit (padStart k CHR ''0'' (String_nat n))"
    using String_nat_digits [of n] by (auto simp: padStart_def list_all_iff zero_char_props)
  have v: "fold (\<lambda>c n. 10 * n + digit_val c) (padStart k CHR ''0'' (String_nat n)) 0 = n"
    unfolding padStart_def by (simp only: fold_leading_zeros String_nat_value)
  show ?thesis
    unfolding Number_def using d v assms by (simp add: nearest_double_small)
qed

lemma duration_fields:
  assumes "MILLISECONDS_A_HOUR dvd ms_month" and "s \<le> 72057594037928"
  shows "floor_asHours (parseFromMilliseconds ms_month (s * 1000)) = s div 3600"
    and "d_minutes (parseFromMilliseconds ms_month (s * 1000)) = s mod 3600 div 60"
    and "d_seconds (parseFromMilliseconds ms_month (s * 1000)) = s mod 60"
proof -
  let ?x = "s * 1000"
  have H: "MILLISECONDS_A_HOUR = 3600000" and M: "MILLISECONDS_A_MINUTE = 60000"
    and S: "MILLISECONDS_A_SECOND = 1000"
    by (simp_all add: MILLISECONDS_A_HOUR_def MILLISECONDS_A_MINUTE_def MILLISECONDS_A_SECOND_def)
  have dY: "MILLISECONDS_A_HOUR dvd MILLISECONDS_A_YEAR"
    by (simp add: MILLISECONDS_A_YEAR_def MILLISECONDS_A_DAY_def)
  have dD: "MILLISECONDS_A_HOUR dvd MILLISECONDS_A_DAY"
    by (simp add: MILLISECONDS_A_DAY_def)
  have x57: "?x < 2 ^ 57" using assms(2) by simp
  have "?x mod MILLISECONDS_A_YEAR mod ms_month mod MILLISECONDS_A_DAY mod MILLISECONDS_A_HOUR
          = ?x mod MILLISECONDS_A_HOUR"
    using assms(1) dY dD by (simp add: mod_mod_cancel)
  also have "\<dots> = (s mod 3600) * 1000"
    unfolding H using mult_mod_left [of s 3600 1000] by simp
  finally have M4:
    "?x mod MILLISECONDS_A_YEAR mod ms_month mod MILLISECONDS_A_DAY mod MILLISECONDS_A_HOUR
       = (s mod 3600) * 1000" .
  have "(s mod 3600) * 1000 mod MILLISECONDS_A_MINUTE = (s mod 3600 mod 60) * 1000"
    unfolding M using mult_mod_left [of "s mod 3600" 60 1000] by simp
  also have "s mod 3600 mod 60 = s mod 60"
    by (simp add: mod_mod_cancel)
  finally have M5: "(s mod 3600) * 1000 mod MILLISECONDS_A_MINUTE = (s mod 60) * 1000" .
  have hours: "floor_quotient ?x MILLISECONDS_A_HOUR = s div 3600"
  proof -
    have "floor_quotient ?x 3600000 = ?x div 3600000"
      using x57 by (intro floor_quotient_exact) simp_all
    then show ?thesis by (simp add: H)
  qed
  have minutes: "floor_quotient ((s mod 3600) * 1000) MILLISECONDS_A_MINUTE = s mod 3600 div 60"
  proof -
    have "(s mod 3600) * 1000 < 3600 * 1000" by simp
    then have "(s mod 3600) * 1000 < 2 ^ 57" by simp
    then have "floor_quotient ((s mod 3600) * 1000) 60000 = (s mod 3600) * 1000 div 60000"
      by (intro floor_quotient_exact) simp_all
    then show ?thesis by (simp add: M)
  qed
  have seconds: "floor_quotient ((s mod 60) * 1000) MILLISECONDS_A_SECOND = s mod 60"
  proof -
    have "(s mod 60) * 1000 < 60 * 1000" by simp
    then have "(s mod 60) * 1000 < 2 ^ 57" by simp
    then have "floor_quotient ((s mod 60) * 1000) 1000 = (s mod 60) * 1000 div 1000"
      by (intro floor_quotient_exact) simp_all
    then show ?thesis by (simp add: S)
  qed
  show "floor_asHours (parseFromMilliseconds ms_month ?x) = s div 3600"
    by (simp only: floor_asHours_def parseFromMilliseconds_def Let_def
        dayjs_duration.select_convs hours)
  show "d_minutes (parseFromMilliseconds ms_month ?x) = s mod 3600 div 60"
    by (simp only: parseFromMilliseconds_def Let_def dayjs_duration.select_convs M4 minutes)
  show "d_seconds (parseFromMilliseconds ms_month ?x) = s mod 60"
    by (simp only: parseFromMilliseconds_def Let_def dayjs_duration.select_convs M4 M5 seconds)
qed


lemma fields_after_rounding:
  assumes "MILLISECONDS_A_HOUR dvd ms_month"
  shows "floor_asHours (parseFromMilliseconds ms_month 72057594037928992) = 20015998343"
    and "d_minutes (parseFromMilliseconds ms_month 72057594037928992) = 52"
    and "d_seconds (parseFromMilliseconds ms_month 72057594037928992) = 8"
proof -
  let ?x = "72057594037928992 :: nat"
  have H: "MILLISECONDS_A_HOUR = 3600000" and M: "MILLISECONDS_A_MINUTE = 60000"
    and S: "MILLISECONDS_A_SECOND = 1000"
    by (simp_all add: MILLISECONDS_A_HOUR_def MILLISECONDS_A_MINUTE_def MILLISECONDS_A_SECOND_def)
  have dY: "MILLISECONDS_A_HOUR dvd MILLISECONDS_A_YEAR"
    by (simp add: MILLISECONDS_A_YEAR_def MILLISECONDS_A_DAY_def)
  have dD: "MILLISECONDS_A_HOUR dvd MILLISECONDS_A_DAY"
    by (simp add: MILLISECONDS_A_DAY_def)
  have "?x mod MILLISECONDS_A_YEAR mod ms_month mod MILLISECONDS_A_DAY mod MILLISECONDS_A_HOUR
          = ?x mod MILLISECONDS_A_HOUR"
    using assms dY dD by (simp add: mod_mod_cancel)
  also have "\<dots> = 3128992"
    by (simp add: H)
  finally have M4:
    "?x mod MILLISECONDS_A_YEAR mod ms_month mod MILLISECONDS_A_DAY mod MILLISECONDS_A_HOUR
       = 3128992" .
  have M5: "(3128992::nat) mod MILLISECONDS_A_MINUTE = 8992"
    by (simp add: M)
  have hours: "floor_quotient ?x MILLISECONDS_A_HOUR = 20015998343"
  proof -
    have "floor_quotient ?x 3600000 = ?x div 3600000"
      by (intro floor_quotient_common_divisor [where g = 32 and e = 5]) simp_all
    then show ?thesis by (simp add: H)
  qed
  have minutes: "floor_quotient 3128992 MILLISECONDS_A_MINUTE = 52"
  proof -
    have "floor_quotient 3128992 60000 = 3128992 div 60000"
      by (intro floor_quotient_common_divisor [where g = 32 and e = 5]) simp_all
    then show ?thesis by (simp add: M)
  qed
  have seconds: "floor_quotient 8992 MILLISECONDS_A_SECOND = 8"
  proof -
    have "floor_quotient 8992 1000 = 8992 div 1000"
      by (intro floor_quotient_common_divisor [where g = 8 and e = 4]) simp_all
    then show ?thesis by (simp add: S)
  qed
  show "floor_asHours (parseFromMilliseconds ms_month ?x) = 20015998343"
    by (simp only: floor_asHours_def parseFromMilliseconds_def Let_def
        dayjs_duration.select_convs hours)
  show "d_minutes (parseFromMilliseconds ms_month ?x) = 52"
    by (simp only: parseFromMilliseconds_def Let_def dayjs_duration.select_convs M4 minutes)
  show "d_seconds (parseFromMilliseconds ms_month ?x) = 8"
    by (simp only: parseFromMilliseconds_def Let_def dayjs_duration.select_convs M4 M5 seconds)
qed

lemma rendered_after_rounding:
  assumes "MILLISECONDS_A_HOUR dvd ms_month"
  shows "formatDuration ms_month (Some 72057594037929) = Some ''20015998343:52:08''"
proof -
  have n: "nearest_double 72057594037929 = Some 72057594037929"
    by (simp add: nearest_double_def)
  have p: "nearest_double (72057594037929 * MILLISECONDS_A_SECOND) = Some 72057594037928992"
    by (simp add: nearest_double_def round_half_even_def bit_length.simps Let_def
        MILLISECONDS_A_SECOND_def)
  have str: "String_num 20015998343 = Some ''20015998343''" "String_num 52 = Some ''52''"
    "String_num 8 = Some ''8''"
    by (simp_all add: String_num_def String_nat.simps digit_char_def)
  show ?thesis
    by (simp add: formatDuration_def n p fields_after_rounding [OF assms] str padStart_def)
qed

text \<open>
  C9 (as stated, refuted): the claim has the round trip for every non-negative whole
  number of seconds. For 72057594037929 seconds the product with 1000 is not a double
  and is rounded down by 8 milliseconds; the string rendered has one second less, and
  parsing it gives 72057594037928.
\<close>

theorem round_trip_loses_a_second:
  "formatDuration (MILLISECONDS_A_YEAR div 12) (Some 72057594037929) = Some ''20015998343:52:08''
   \<and> formatDuration (MILLISECONDS_A_DAY * 30) (Some 72057594037929) = Some ''20015998343:52:08''
   \<and> parseDuration ''20015998343:52:08'' = Some (Num 72057594037928)"
proof -
  have "MILLISECONDS_A_HOUR dvd MILLISECONDS_A_YEAR div 12"
    and "MILLISECONDS_A_HOUR dvd MILLISECONDS_A_DAY * 30"
    by (simp_all add: MILLISECONDS_A_YEAR_def MILLISECONDS_A_DAY_def MILLISECONDS_A_HOUR_def
        MILLISECONDS_A_MINUTE_def MILLISECONDS_A_SECOND_def)
  then have "formatDuration (MILLISECONDS_A_YEAR div 12) (Some 72057594037929)
        = Some ''20015998343:52:08''"
    and "formatDuration (MILLISECONDS_A_DAY * 30) (Some 72057594037929)
        = Some ''20015998343:52:08''"
    by (simp_all only: rendered_after_rounding)
  moreover have "parseDuration ''20015998343:52:08'' = Some (Num 72057594037928)"
    by (simp add: parseDuration_def split_def Number_def is_digit_def digit_val_def
        nearest_double_def Let_def)
  ultimately show ?thesis by simp
qed

text \<open>
  C9 (amended): for every whole number of seconds \<open>s\<close> from 0 to 72057594037928, the
  largest number before the first that fails, \<open>formatDuration\<close> renders a string and
  parsing that string gives \<open>s\<close> back, for both lengths of a month that releases of the
  library use.
\<close>

theorem parseDuration_formatDuration:
  assumes "ms_month = MILLISECONDS_A_DAY * 30 \<or> ms_month = MILLISECONDS_A_YEAR div 12"
    and "s \<le> 72057594037928"
  shows "\<exists>str. formatDuration ms_month (Some s) = Some str \<and> parseDuration str = Some (Num s)"
proof -
  have dv: "MILLISECONDS_A_HOUR dvd ms_month"
    using assms(1)
    by (auto simp: MILLISECONDS_A_YEAR_def MILLISECONDS_A_DAY_def MILLISECONDS_A_HOUR_def
        MILLISECONDS_A_MINUTE_def MILLISECONDS_A_SECOND_def)
  note f = duration_fields [OF dv assms(2)]
  have s53: "s < 2 ^ 53" using assms(2) by simp
  have h53: "s div 3600 < 2 ^ 53" and m53: "s mod 3600 div 60 < 2 ^ 53" and c53: "s mod 60 < 2 ^ 53"
    using s53 by (simp_all add: div_le_dividend [THEN le_less_trans] less_imp_le [THEN div_le_dividend [THEN le_trans, rotated]])
  have m: "s mod 3600 div 60 * 60 + s mod 60 = s mod 3600"
    using div_mult_mod_eq [of "s mod 3600" 60] by (simp add: mod_mod_cancel)
  have e: "s div 3600 * 3600 + s mod 3600 = s"
    by (rule div_mult_mod_eq)
  have total: "s div 3600 * 3600 + s mod 3600 div 60 * 60 + s mod 60 = s"
    by (simp only: add.assoc m e)
  have p1: "s div 3600 * 3600 < 2 ^ 53" and p2: "s mod 3600 div 60 * 60 < 2 ^ 53"
    and p3: "s div 3600 * 3600 + s mod 3600 div 60 * 60 < 2 ^ 53"
    using total s53 by linarith+
  have "nearest_double s = Some s"
    using s53 by (rule nearest_double_small)
  moreover have "nearest_double (s * MILLISECONDS_A_SECOND) = Some (s * 1000)"
    using nearest_double_milliseconds [OF assms(2)] by (simp add: MILLISECONDS_A_SECOND_def)
  ultimately have fmt: "formatDuration ms_month (Some s)
      = Some (if s div 3600 > 0
              then String_nat (s div 3600) @ [CHR '':'']
                   @ padStart 2 CHR ''0'' (String_nat (s mod 3600 div 60)) @ [CHR '':'']
                   @ padStart 2 CHR ''0'' (String_nat (s mod 60))
              else String_nat (s mod 3600 div 60) @ [CHR '':'']
                   @ padStart 2 CHR ''0'' (String_nat (s mod 60)))"
    using h53 m53 c53 by (simp add: formatDuration_def Let_def f String_num_def)
  have three: "parseDuration (String_nat (s div 3600) @ [CHR '':'']
                   @ padStart 2 CHR ''0'' (String_nat (s mod 3600 div 60)) @ [CHR '':'']
                   @ padStart 2 CHR ''0'' (String_nat (s mod 60))) = Some (Num s)"
    using total p1 p2 p3 s53
    by (simp add: parseDuration_def split_three String_nat_no_colon padStart_no_colon
        Number_String_nat Number_padStart h53 m53 c53 nearest_double_small del: append.simps)
  have two: "s div 3600 = 0 \<Longrightarrow>
      parseDuration (String_nat (s mod 3600 div 60) @ [CHR '':'']
                   @ padStart 2 CHR ''0'' (String_nat (s mod 60))) = Some (Num s)"
    using total p2 s53
    by (simp add: parseDuration_def split_two String_nat_no_colon padStart_no_colon
        Number_String_nat Number_padStart m53 c53 nearest_double_small del: append.simps)
  show ?thesis
  proof (cases "s div 3600 > 0")
    case True
    with fmt three show ?thesis by simp
  next
    case False
    with fmt two show ?thesis by simp
  qed
qed

text \<open>
  The amended round trip at its largest input, with a month of a twelfth of a year.
\<close>

theorem parseDuration_formatDuration_witness:
  "(72057594037928::nat) \<le> 72057594037928
   \<and> (\<exists>str. formatDuration (MILLISECONDS_A_YEAR div 12) (Some 72057594037928) = Some str
            \<and> parseDuration str = Some (Num 72057594037928))"
  using parseDuration_formatDuration [of "MILLISECONDS_A_YEAR div 12" 72057594037928]
  by simp

section \<open>Reconnection and explicit stop\<close>

lemmas hook_defs =
  run_def step_def connect_def disconnect_def onclose_def setTimeout_def clearTimeout_def
  ws_close_def truthy_token_def hook_init_def

lemma run_append: "run (xs @ ys) s = run ys (run xs s)"
  by (simp add: run_def)

lemma scheduled_step:
  "scheduled (step a s) = scheduled s \<or> scheduled (step a s) = scheduled s @ [5000]"
  by (cases a) (auto simp: step_def connect_def disconnect_def onclose_def setTimeout_def
      clearTimeout_def ws_close_def Let_def split: option.splits)

lemma scheduled_run:
  "list_all (\<lambda>d. d = 5000) (scheduled s) \<Longrightarrow> list_all (\<lambda>d. d = 5000) (scheduled (run acts s))"
proof (induction acts arbitrary: s)
  case Nil
  then show ?case by (simp add: run_def)
next
  case (Cons a acts)
  have "list_all (\<lambda>d. d = 5000) (scheduled (step a s))"
    using scheduled_step [of a s] Cons.prems by auto
  from Cons.IH [OF this] show ?case by (simp add: run_def)
qed

text \<open>
  C1 (as stated, refuted): the claim has the delay grow with the number of the attempt.
  With a token present, the socket is dropped, the timeout expires, and the next socket
  is dropped too: both reconnections were scheduled with the same delay of 5000 ms.
\<close>

theorem reconnect_delay_repeats:
  "scheduled (run two_drops (hook_init (Some ''t''))) = [5000, 5000]"
  by (simp add: two_drops_def hook_defs)

text \<open>
  C1 (amended): every reconnection is scheduled with the constant delay of 5000 ms, the
  value of \<open>WS_RECONNECT_DELAY\<close>: in every run from the initial state all delays passed
  to \<open>setTimeout\<close> are 5000, and a close event in any state adds exactly one timeout,
  of 5000 ms, whose handle is stored. The delay does not depend on earlier attempts, and
  the state holds no attempt counter.
\<close>

theorem reconnect_delay_constant:
  "list_all (\<lambda>d. d = 5000) (scheduled (run acts (hook_init tok)))
   \<and> (enabled (CloseEvent i) s \<longrightarrow>
        timers (step (CloseEvent i) s) = timers s @ [(next_timer s, 5000)]
      \<and> reconnectTimeoutRef (step (CloseEvent i) s) = Some (next_timer s))
   \<and> WS_RECONNECT_DELAY = 5000"
proof -
  have "list_all (\<lambda>d. d = 5000) (scheduled (run acts (hook_init tok)))"
    by (rule scheduled_run) (simp add: hook_init_def)
  then show ?thesis
    by (simp add: step_def onclose_def setTimeout_def WS_RECONNECT_DELAY_def)
qed

theorem reconnect_delay_constant_witness:
  "enabled (CloseEvent 0) (run [Connect] (hook_init (Some ''t'')))
   \<and> timers (step (CloseEvent 0) (run [Connect] (hook_init (Some ''t'')))) = [(1, 5000)]
   \<and> list_all (\<lambda>d. d = 5000) (scheduled (run two_drops (hook_init (Some ''t''))))"
  using reconnect_delay_constant [of two_drops "Some ''t''" 0 "run [Connect] (hook_init (Some ''t''))"]
  by (simp add: hook_defs two_drops_def WS_RECONNECT_DELAY_def)

lemma failed_attempts_Suc:
  "failed_attempts (Suc n) = failed_attempts n @ [CloseEvent n, Timeout (Suc n)]"
  by (simp add: failed_attempts_def)

lemma failed_attempts_run:
  "run (failed_attempts n) (hook_init (Some ''t'')) =
     \<lparr> token = Some ''t'', wsRef = Some n,
       reconnectTimeoutRef = (if n = 0 then None else Some n),
       sockets = replicate n CLOSED @ [CONNECTING], timers = [],
       next_timer = Suc n, scheduled = replicate n 5000 \<rparr>"
proof (induction n)
  case 0
  show ?case by (simp add: failed_attempts_def hook_defs)
next
  case (Suc n)
  have upd: "(replicate n CLOSED @ [CONNECTING])[n := CLOSED] = replicate (Suc n) CLOSED"
    by (simp add: list_update_append replicate_append_same)
  have r: "replicate n (5000::nat) @ [5000] = replicate (Suc n) 5000"
    by (simp add: replicate_append_same)
  show ?case
    unfolding failed_attempts_Suc run_append Suc.IH
    by (simp add: hook_defs nth_append upd r del: replicate_Suc replicate.simps)
qed

text \<open>
  C2 (the code departs from the claim): the claim has the hook stop after
  \<open>WS_MAX_RECONNECT_ATTEMPTS\<close> failed attempts. After one more failed attempt than
  that, the hook has created a twelfth socket and is connecting again;
  \<open>failed_attempts_run\<close> shows the same after any number of failed attempts.
\<close>

theorem reconnect_after_max_attempts:
  "run (failed_attempts (Suc WS_MAX_RECONNECT_ATTEMPTS)) (hook_init (Some ''t'')) =
     \<lparr> token = Some ''t'', wsRef = Some 11, reconnectTimeoutRef = Some 11,
       sockets = replicate 11 CLOSED @ [CONNECTING], timers = [],
       next_timer = 12, scheduled = replicate 11 5000 \<rparr>"
  by (simp add: failed_attempts_run WS_MAX_RECONNECT_ATTEMPTS_def del: replicate_Suc replicate.simps)

text \<open>
  C3 (the code departs from the claim): the claim has no reconnection scheduled and no
  connection opened after \<open>disconnect\<close>. With a token present and the socket open,
  \<open>disconnect\<close> closes the socket; its close event then runs the handler, which schedules
  a timeout, and when that expires a new socket is created.
\<close>

theorem reconnect_after_disconnect:
  "run stop_while_open (hook_init (Some ''t'')) =
     \<lparr> token = Some ''t'', wsRef = Some 1, reconnectTimeoutRef = Some 1,
       sockets = [CLOSED, CONNECTING], timers = [], next_timer = 2, scheduled = [5000] \<rparr>
   \<and> timers (run (butlast stop_while_open) (hook_init (Some ''t''))) = [(1, 5000)]"
  by (simp add: stop_while_open_def hook_defs)

section \<open>Order of dispatch\<close>

lemma seen_append: "seen h type (xs @ ys) = seen h type xs @ seen h type ys"
  by (induction h type xs rule: seen.induct) simp_all

lemma seen_map_other:
  "type' \<noteq> type \<Longrightarrow> seen h type (map (\<lambda>h'. Handler h' type' d) hs) = []"
  by (induction hs) simp_all

lemma seen_map_same:
  "seen h type (map (\<lambda>h'. Handler h' type d) hs) = replicate (count_list hs h) d"
  by (induction hs) simp_all

lemma repeat_simps:
  "repeat [] xs = []" "repeat ns [] = []"
  "repeat (n # ns) (x # xs) = replicate n x @ repeat ns xs"
  by (simp_all add: repeat_def)

lemma repeat_append:
  "length ns = length xs \<Longrightarrow> repeat (ns @ ms) (xs @ ys) = repeat ns xs @ repeat ms ys"
  by (simp add: repeat_def)

text \<open>The calls one message adds are all for that message.\<close>

lemma forEach_handler_calls:
  "\<exists>reg' hs. forEach_handler beh type d n k (reg, calls)
                = (reg', calls @ map (\<lambda>h. Handler h type d) hs)"
proof (induction n arbitrary: k reg calls)
  case 0
  have "forEach_handler beh type d 0 k (reg, calls) = (reg, calls @ map (\<lambda>h. Handler h type d) [])"
    by simp
  then show ?case by blast
next
  case (Suc n)
  show ?case
  proof (cases "k < length (reg type)")
    case False
    with Suc [of "Suc k" reg calls] show ?thesis by simp
  next
    case True
    let ?h = "reg type ! k"
    let ?reg = "fold apply_op (fst (beh calls ?h d)) reg"
    show ?thesis
    proof (cases "snd (beh calls ?h d)")
      case True
      with \<open>k < length (reg type)\<close>
      have "forEach_handler beh type d (Suc n) k (reg, calls)
              = (?reg, calls @ map (\<lambda>h. Handler h type d) [?h])"
        by (simp add: Let_def)
      then show ?thesis by blast
    next
      case False
      from Suc [of "Suc k" ?reg "calls @ [Handler ?h type d]"]
      obtain reg' hs where
        "forEach_handler beh type d n (Suc k) (?reg, calls @ [Handler ?h type d])
           = (reg', (calls @ [Handler ?h type d]) @ map (\<lambda>h. Handler h type d) hs)"
        by blast
      with False \<open>k < length (reg type)\<close>
      have "forEach_handler beh type d (Suc n) k (reg, calls)
              = (reg', calls @ map (\<lambda>h. Handler h type d) (?h # hs))"
        by (simp add: Let_def)
      then show ?thesis by blast
    qed
  qed
qed

lemma onmessage_seen:
  "\<exists>reg' new ns. onmessage beh m (reg, calls) = (reg', calls @ new)
      \<and> length ns = length (of_type type [m])
      \<and> seen h type new = repeat ns (of_type type [m])"
proof (cases m)
  case Unparsable
  then have "onmessage beh m (reg, calls) = (reg, calls @ [])
      \<and> length ([] :: nat list) = length (of_type type [m])
      \<and> seen h type [] = repeat [] (of_type type [m])"
    by (simp add: onmessage_def repeat_simps)
  then show ?thesis by blast
next
  case (Data type' d)
  show ?thesis
  proof (cases "type' \<in> builtin_types")
    case True
    then obtain c where c: "onmessage beh m (reg, calls) = (reg, calls @ [c])"
      and "seen h type [c] = []"
      using Data by (auto simp: onmessage_def builtin_types_def)
    then have "length [0::nat] = length (of_type type [m]) \<and> seen h type [c] = repeat [0] (of_type type [m])
        \<or> length ([]::nat list) = length (of_type type [m]) \<and> seen h type [c] = repeat [] (of_type type [m])"
      using Data by (simp add: repeat_simps)
    with c show ?thesis by blast
  next
    case False
    with Data have "onmessage beh m (reg, calls)
        = forEach_handler beh type' d (length (reg type')) 0 (reg, calls)"
      by (simp add: onmessage_def builtin_types_def)
    then obtain reg' hs where
      c: "onmessage beh m (reg, calls) = (reg', calls @ map (\<lambda>h. Handler h type' d) hs)"
      using forEach_handler_calls [of beh type' d "length (reg type')" 0 reg calls] by auto
    show ?thesis
    proof (cases "type' = type")
      case True
      then have "length [count_list hs h] = length (of_type type [m])
          \<and> seen h type (map (\<lambda>h. Handler h type' d) hs) = repeat [count_list hs h] (of_type type [m])"
        using Data by (simp add: seen_map_same repeat_simps)
      with c show ?thesis by blast
    next
      case False
      then have "length ([]::nat list) = length (of_type type [m])
          \<and> seen h type (map (\<lambda>h. Handler h type' d) hs) = repeat [] (of_type type [m])"
        using Data by (simp add: seen_map_other repeat_simps)
      with c show ?thesis by blast
    qed
  qed
qed

lemma of_type_Cons: "of_type type (m # ms) = of_type type [m] @ of_type type ms"
  by (cases m) simp_all

lemma session_seen:
  "\<exists>ns. length ns = length (of_type type (received evs))
      \<and> seen h type (snd (fold (ws_step beh) evs (reg, calls)))
          = seen h type calls @ repeat ns (of_type type (received evs))"
proof (induction evs arbitrary: reg calls)
  case Nil
  have "length ([]::nat list) = length (of_type type (received ([] :: 'a ws_event list)))
      \<and> seen h type (snd (fold (ws_step beh) [] (reg, calls)))
          = seen h type calls @ repeat [] (of_type type (received ([] :: 'a ws_event list)))"
    by (simp add: repeat_simps)
  then show ?case by blast
next
  case (Cons ev evs)
  show ?case
  proof (cases ev)
    case (Subscribe t' h')
    with Cons [of "onMessage t' h' reg" calls] show ?thesis by simp
  next
    case (Unsubscribe t' h')
    with Cons [of "unsubscribe t' h' reg" calls] show ?thesis by simp
  next
    case (Receive m)
    from onmessage_seen [of beh m reg calls type h]
    obtain reg' new ns1 where o: "onmessage beh m (reg, calls) = (reg', calls @ new)"
      and l1: "length ns1 = length (of_type type [m])"
      and s1: "seen h type new = repeat ns1 (of_type type [m])"
      by blast
    from Cons [of reg' "calls @ new"]
    obtain ns2 where l2: "length ns2 = length (of_type type (received evs))"
      and s2: "seen h type (snd (fold (ws_step beh) evs (reg', calls @ new)))
                 = seen h type (calls @ new) @ repeat ns2 (of_type type (received evs))"
      by blast
    have "length (ns1 @ ns2) = length (of_type type (received (ev # evs)))"
      using l1 l2 Receive by (simp add: of_type_Cons [of type m "received evs"] del: of_type.simps)
    moreover have "seen h type (snd (fold (ws_step beh) (ev # evs) (reg, calls)))
        = seen h type calls @ repeat (ns1 @ ns2) (of_type type (received (ev # evs)))"
      using o s1 s2 l1 Receive
      by (simp add: seen_append repeat_append of_type_Cons [of type m "received evs"]
          del: of_type.simps)
    ultimately show ?thesis by blast
  qed
qed

text \<open>Handlers that leave the registry alone: the array is walked as it was.\<close>

lemma forEach_handler_static:
  assumes "\<forall>cs h d. fst (beh cs h d) = []"
  shows "\<exists>hs. forEach_handler beh type d n k (reg, calls)
                 = (reg, calls @ map (\<lambda>h. Handler h type d) hs)
             \<and> (\<forall>h. count_list hs h \<le> count_list (drop k (reg type)) h)"
proof (induction n arbitrary: k calls)
  case 0
  have "forEach_handler beh type d 0 k (reg, calls) = (reg, calls @ map (\<lambda>h. Handler h type d) [])
      \<and> (\<forall>h. count_list [] h \<le> count_list (drop k (reg type)) h)"
    by simp
  then show ?case by blast
next
  case (Suc n)
  show ?case
  proof (cases "k < length (reg type)")
    case False
    from Suc [of "Suc k" calls] obtain hs where
      "forEach_handler beh type d n (Suc k) (reg, calls) = (reg, calls @ map (\<lambda>h. Handler h type d) hs)"
      and "\<forall>h. count_list hs h \<le> count_list (drop (Suc k) (reg type)) h"
      by blast
    with False have "forEach_handler beh type d (Suc n) k (reg, calls)
          = (reg, calls @ map (\<lambda>h. Handler h type d) hs)
        \<and> (\<forall>h. count_list hs h \<le> count_list (drop k (reg type)) h)"
      by simp
    then show ?thesis by blast
  next
    case True
    let ?h = "reg type ! k"
    have dr: "drop k (reg type) = ?h # drop (Suc k) (reg type)"
      using True by (simp add: Cons_nth_drop_Suc)
    show ?thesis
    proof (cases "snd (beh calls ?h d)")
      case thr: True
      have "forEach_handler beh type d (Suc n) k (reg, calls)
            = (reg, calls @ map (\<lambda>h. Handler h type d) [?h])
          \<and> (\<forall>h. count_list [?h] h \<le> count_list (drop k (reg type)) h)"
        using True thr assms by (simp add: Let_def dr)
      then show ?thesis by blast
    next
      case False
      from Suc [of "Suc k" "calls @ [Handler ?h type d]"] obtain hs where
        r: "forEach_handler beh type d n (Suc k) (reg, calls @ [Handler ?h type d])
             = (reg, (calls @ [Handler ?h type d]) @ map (\<lambda>h. Handler h type d) hs)"
        and c: "\<forall>h. count_list hs h \<le> count_list (drop (Suc k) (reg type)) h"
        by blast
      have "forEach_handler beh type d (Suc n) k (reg, calls)
            = (reg, calls @ map (\<lambda>h. Handler h type d) (?h # hs))
          \<and> (\<forall>h. count_list (?h # hs) h \<le> count_list (drop k (reg type)) h)"
        using True False assms r c by (simp add: Let_def dr)
      then show ?thesis by blast
    qed
  qed
qed

lemma count_list_drop: "count_list (drop k xs) h \<le> count_list xs h"
proof -
  have "count_list (take k xs @ drop k xs) h = count_list (take k xs) h + count_list (drop k xs) h"
    by (rule count_list_append)
  then show ?thesis by simp
qed

lemma onmessage_static:
  assumes "\<forall>cs h d. fst (beh cs h d) = []" and "count_list (reg type) h \<le> 1"
  shows "\<exists>new. onmessage beh m (reg, calls) = (reg, calls @ new)
             \<and> subseq (seen h type new) (of_type type [m])"
proof (cases m)
  case Unparsable
  then have "onmessage beh m (reg, calls) = (reg, calls @ [])
      \<and> subseq (seen h type []) (of_type type [m])"
    by (simp add: onmessage_def)
  then show ?thesis by blast
next
  case (Data type' d)
  show ?thesis
  proof (cases "type' \<in> builtin_types")
    case True
    then obtain c where "onmessage beh m (reg, calls) = (reg, calls @ [c])"
      and "seen h type [c] = []"
      using Data by (auto simp: onmessage_def builtin_types_def)
    then have "onmessage beh m (reg, calls) = (reg, calls @ [c])
        \<and> subseq (seen h type [c]) (of_type type [m])"
      by simp
    then show ?thesis by blast
  next
    case False
    from forEach_handler_static [OF assms(1), where type = type' and d = d
        and n = "length (reg type')" and k = 0 and reg = reg and calls = calls]
    obtain hs where
      r: "forEach_handler beh type' d (length (reg type')) 0 (reg, calls)
            = (reg, calls @ map (\<lambda>h. Handler h type' d) hs)"
      and c: "\<forall>h. count_list hs h \<le> count_list (reg type') h"
      by auto
    from False Data r have o: "onmessage beh m (reg, calls)
        = (reg, calls @ map (\<lambda>h. Handler h type' d) hs)"
      by (simp add: onmessage_def builtin_types_def)
    show ?thesis
    proof (cases "type' = type")
      case True
      with c assms(2) have "count_list hs h = 0 \<or> count_list hs h = 1"
        using le_trans [of "count_list hs h" "count_list (reg type) h" 1] by auto
      then have "subseq (seen h type (map (\<lambda>h. Handler h type' d) hs)) (of_type type [m])"
        using True Data by (auto simp: seen_map_same)
      with o show ?thesis by blast
    next
      case False
      then have "subseq (seen h type (map (\<lambda>h. Handler h type' d) hs)) (of_type type [m])"
        using Data by (simp add: seen_map_other)
      with o show ?thesis by blast
    qed
  qed
qed

lemma receive_static:
  assumes "\<forall>cs h d. fst (beh cs h d) = []" and "count_list (reg type) h \<le> 1"
  shows "\<exists>new. fold (ws_step beh) (map Receive ms) (reg, calls) = (reg, calls @ new)
             \<and> subseq (seen h type new) (of_type type ms)"
proof (induction ms arbitrary: calls)
  case Nil
  have "fold (ws_step beh) (map Receive []) (reg, calls) = (reg, calls @ [])
      \<and> subseq (seen h type []) (of_type type [])"
    by simp
  then show ?case by blast
next
  case (Cons m ms)
  from onmessage_static [where beh = beh and reg = reg and type = type and h = h
      and m = m and calls = calls, OF assms] obtain new1 where
    o: "onmessage beh m (reg, calls) = (reg, calls @ new1)"
    and s1: "subseq (seen h type new1) (of_type type [m])"
    by blast
  from Cons [of "calls @ new1"] obtain new2 where
    f: "fold (ws_step beh) (map Receive ms) (reg, calls @ new1) = (reg, (calls @ new1) @ new2)"
    and s2: "subseq (seen h type new2) (of_type type ms)"
    by blast
  have "subseq (seen h type (new1 @ new2)) (of_type type (m # ms))"
    unfolding seen_append of_type_Cons [of type m ms]
    using s1 s2 by (rule list_emb_append_mono)
  moreover have "fold (ws_step beh) (map Receive (m # ms)) (reg, calls) = (reg, calls @ (new1 @ new2))"
    using o f by simp
  ultimately show ?case by blast
qed

text \<open>Handlers that only look: every handler of the type is called.\<close>

lemma forEach_handler_passive:
  assumes "\<And>cs h. h \<in> set (reg type) \<Longrightarrow> beh cs h d = ([], False)"
  shows "forEach_handler beh type d n k (reg, calls)
           = (reg, calls @ map (\<lambda>h. Handler h type d) (take n (drop k (reg type))))"
proof (induction n arbitrary: k calls)
  case 0
  show ?case by simp
next
  case (Suc n)
  show ?case
  proof (cases "k < length (reg type)")
    case False
    with Suc [of "Suc k" calls] show ?thesis by simp
  next
    case True
    then have dr: "drop k (reg type) = reg type ! k # drop (Suc k) (reg type)"
      by (simp add: Cons_nth_drop_Suc)
    from True have "beh calls (reg type ! k) d = ([], False)"
      by (simp add: assms)
    with True Suc [of "Suc k" "calls @ [Handler (reg type ! k) type d]"] show ?thesis
      by (simp add: Let_def dr)
  qed
qed

lemma onmessage_passive:
  assumes "type \<notin> builtin_types"
    and "\<And>cs h. h \<in> set (reg type) \<Longrightarrow> beh cs h d = ([], False)"
  shows "onmessage beh (Data type d) (reg, calls)
           = (reg, calls @ map (\<lambda>h. Handler h type d) (reg type))"
  using assms(1) forEach_handler_passive [of reg type beh d "length (reg type)" 0 calls] assms(2)
  by (simp add: onmessage_def builtin_types_def)


text \<open>
  Handlers that neither throw nor remove a handler of the type: the positions to visit
  keep their handlers, and each is called.
\<close>

lemma fold_apply_op_keeps:
  "\<forall>h'. Remove type h' \<notin> set ops \<Longrightarrow> \<exists>ex. fold apply_op ops reg type = reg type @ ex"
proof (induction ops arbitrary: reg)
  case Nil
  show ?case by simp
next
  case (Cons op ops)
  then have rest: "\<forall>h'. Remove type h' \<notin> set ops" by simp
  have "\<exists>ex1. apply_op op reg type = reg type @ ex1"
  proof (cases op)
    case (Register t h)
    then show ?thesis by (simp add: onMessage_def)
  next
    case (Remove t h)
    with Cons.prems have "t \<noteq> type" by auto
    with Remove show ?thesis by (simp add: unsubscribe_def)
  qed
  then obtain ex1 where e1: "apply_op op reg type = reg type @ ex1" by blast
  from Cons.IH [OF rest, of "apply_op op reg"] obtain ex2 where
    "fold apply_op ops (apply_op op reg) type = apply_op op reg type @ ex2" by blast
  with e1 have "fold apply_op (op # ops) reg type = reg type @ (ex1 @ ex2)" by simp
  then show ?case by blast
qed

lemma forEach_handler_complete:
  assumes "\<forall>cs. \<forall>h \<in> set orig. \<not> snd (beh cs h d) \<and> (\<forall>h'. Remove type h' \<notin> set (fst (beh cs h d)))"
  shows "reg type = orig @ ex \<Longrightarrow> k + n = length orig \<Longrightarrow>
    snd (forEach_handler beh type d n k (reg, calls))
      = calls @ map (\<lambda>h. Handler h type d) (drop k orig)"
proof (induction n arbitrary: k reg calls ex)
  case 0
  then show ?case by simp
next
  case (Suc n)
  from Suc.prems have k: "k < length orig" and kr: "k < length (reg type)"
    and h: "reg type ! k = orig ! k"
    by (simp_all add: nth_append)
  let ?h = "orig ! k"
  from k have mem: "?h \<in> set orig" by simp
  with assms have quiet: "\<not> snd (beh calls ?h d)"
    and keep: "\<forall>h'. Remove type h' \<notin> set (fst (beh calls ?h d))"
    by blast+
  from fold_apply_op_keeps [OF keep, of reg] Suc.prems(1) obtain ex' where
    r: "fold apply_op (fst (beh calls ?h d)) reg type = orig @ (ex @ ex')"
    by auto
  have dr: "drop k orig = ?h # drop (Suc k) orig"
    using k by (simp add: Cons_nth_drop_Suc)
  from Suc.prems(2) have "Suc k + n = length orig" by simp
  from Suc.IH [where reg = "fold apply_op (fst (beh calls ?h d)) reg" and ex = "ex @ ex'"
      and k = "Suc k" and calls = "calls @ [Handler ?h type d]", OF r this] kr h quiet
  show ?case
    by (simp add: Let_def dr)
qed

lemma onmessage_complete:
  assumes "type \<notin> builtin_types"
    and "\<forall>cs. \<forall>h \<in> set (reg type). \<not> snd (beh cs h d)
                \<and> (\<forall>h'. Remove type h' \<notin> set (fst (beh cs h d)))"
  shows "snd (onmessage beh (Data type d) (reg, calls))
           = calls @ map (\<lambda>h. Handler h type d) (reg type)"
  using assms(1)
    forEach_handler_complete [where beh = beh and orig = "reg type" and type = type and d = d
      and reg = reg and ex = "[]" and k = 0 and n = "length (reg type)" and calls = calls,
      OF assms(2)]
  by (simp add: onmessage_def builtin_types_def)

text \<open>
  C8 (as stated, refuted): the claim has every handler registered for the type of a
  message invoked. A handler registered for the type \<open>event\<close> is not invoked when a
  message of that type arrives: the message goes to the event store only. Of two
  handlers registered for another type, the second is not invoked when the first throws,
  nor when the first unsubscribes itself while it runs.
\<close>

theorem builtin_type_bypasses_handlers:
  "snd (ws_session looks_only [Subscribe ''event'' 7, Receive (Data ''event'' 0)]) = [AddEvent 0]
   \<and> snd (ws_session first_throws
          [Subscribe ''ptz'' 1, Subscribe ''ptz'' 2, Receive (Data ''ptz'' 0)])
     = [Handler 1 ''ptz'' 0]
   \<and> snd (ws_session first_leaves
          [Subscribe ''ptz'' 1, Subscribe ''ptz'' 2, Receive (Data ''ptz'' 0)])
     = [Handler 1 ''ptz'' 0]"
  by (simp add: ws_session_def onMessage_def unsubscribe_def no_handlers_def onmessage_def
      looks_only_def first_throws_def first_leaves_def)

text \<open>
  C8 (amended): \<open>onMessage\<close> appends the handler to those of its type, and received
  messages are handled one at a time in arrival order. A message of type
  \<open>camera_status\<close>, \<open>event\<close> or \<open>event_update\<close> is passed to the store and to no
  registered handler. For any other type, when no handler registered for it throws on
  the message or removes a handler of that type while it runs, each of them is invoked,
  in registration order. Whatever the handlers do, in every session what a handler
  observes for a type are the messages of that type in arrival order, each one left out,
  delivered once or delivered again in place; so no two handlers observe two messages in
  opposite order. When no handler changes the registry, a handler registered at most
  once for the type observes a subsequence of the messages of the type, and when in
  addition no handler throws, two handlers each registered once observe the same
  sequence, all messages of the type in arrival order.
\<close>

theorem dispatch_order:
  fixes beh :: "'d behaviour"
  shows "fst (ws_step beh (Subscribe type h) (reg, calls)) type = reg type @ [h]
   \<and> onmessage beh (Data ''camera_status'' d) (reg, calls) = (reg, calls @ [UpdateCameraStatus d])
   \<and> onmessage beh (Data ''event'' d) (reg, calls) = (reg, calls @ [AddEvent d])
   \<and> onmessage beh (Data ''event_update'' d) (reg, calls) = (reg, calls @ [UpdateEvent d])
   \<and> (type \<notin> builtin_types
        \<and> (\<forall>cs. \<forall>h \<in> set (reg type). \<not> snd (beh cs h d)
                \<and> (\<forall>h'. Remove type h' \<notin> set (fst (beh cs h d)))) \<longrightarrow>
        snd (onmessage beh (Data type d) (reg, calls))
          = calls @ map (\<lambda>h. Handler h type d) (reg type))
   \<and> (\<exists>ns. length ns = length (of_type type (received evs))
          \<and> seen h type (snd (fold (ws_step beh) evs (reg, [])))
              = repeat ns (of_type type (received evs)))
   \<and> ((\<forall>cs h d. fst (beh cs h d) = []) \<and> count_list (reg type) h \<le> 1 \<longrightarrow>
        subseq (seen h type (snd (fold (ws_step beh) (map Receive ms) (reg, []))))
               (of_type type ms))
   \<and> ((\<forall>cs h d. beh cs h d = ([], False)) \<and> type \<notin> builtin_types
        \<and> count_list (reg type) h1 = 1 \<and> count_list (reg type) h2 = 1 \<longrightarrow>
        seen h1 type (snd (fold (ws_step beh) (map Receive ms) (reg, []))) = of_type type ms
      \<and> seen h2 type (snd (fold (ws_step beh) (map Receive ms) (reg, []))) = of_type type ms)"
proof -
  have a: "fst (ws_step beh (Subscribe type h) (reg, calls)) type = reg type @ [h]"
    by (simp add: onMessage_def)
  have b: "onmessage beh (Data ''camera_status'' d) (reg, calls) = (reg, calls @ [UpdateCameraStatus d])"
    "onmessage beh (Data ''event'' d) (reg, calls) = (reg, calls @ [AddEvent d])"
    "onmessage beh (Data ''event_update'' d) (reg, calls) = (reg, calls @ [UpdateEvent d])"
    by (simp_all add: onmessage_def)
  have c: "snd (onmessage beh (Data type d) (reg, calls))
             = calls @ map (\<lambda>h. Handler h type d) (reg type)"
    if "type \<notin> builtin_types"
      and "\<forall>cs. \<forall>h \<in> set (reg type). \<not> snd (beh cs h d)
                \<and> (\<forall>h'. Remove type h' \<notin> set (fst (beh cs h d)))"
    using that by (rule onmessage_complete)
  have d: "\<exists>ns. length ns = length (of_type type (received evs))
          \<and> seen h type (snd (fold (ws_step beh) evs (reg, [])))
              = repeat ns (of_type type (received evs))"
    using session_seen [of type evs h beh reg "[]"] by simp
  have e: "subseq (seen h type (snd (fold (ws_step beh) (map Receive ms) (reg, []))))
                  (of_type type ms)"
    if "\<forall>cs h d. fst (beh cs h d) = []" and "count_list (reg type) h \<le> 1"
    using receive_static [where beh = beh and reg = reg and type = type and h = h
        and ms = ms and calls = "[]", OF that] by auto
  have f: "seen k type (snd (fold (ws_step beh) (map Receive ms) (reg, []))) = of_type type ms"
    if p: "\<forall>cs h d. beh cs h d = ([], False)" and t: "type \<notin> builtin_types"
      and k: "count_list (reg type) k = 1" for k
  proof -
    have run: "\<exists>new. fold (ws_step beh) (map Receive ms') (reg, cs) = (reg, cs @ new)
        \<and> seen k type new = of_type type ms'" for ms' cs
    proof (induction ms' arbitrary: cs)
      case Nil
      have "fold (ws_step beh) (map Receive []) (reg, cs) = (reg, cs @ [])
          \<and> seen k type [] = of_type type []"
        by simp
      then show ?case by blast
    next
      case (Cons m ms')
      have "\<exists>new1. onmessage beh m (reg, cs) = (reg, cs @ new1)
          \<and> seen k type new1 = of_type type [m]"
      proof (cases m)
        case Unparsable
        then have "onmessage beh m (reg, cs) = (reg, cs @ [])
            \<and> seen k type [] = of_type type [m]"
          by (simp add: onmessage_def)
        then show ?thesis by blast
      next
        case (Data type' d')
        show ?thesis
        proof (cases "type' \<in> builtin_types")
          case True
          with t have "type' \<noteq> type" by auto
          with True Data obtain c where "onmessage beh m (reg, cs) = (reg, cs @ [c])
              \<and> seen k type [c] = of_type type [m]"
            by (auto simp: onmessage_def builtin_types_def)
          then show ?thesis by blast
        next
          case False
          then have o: "onmessage beh m (reg, cs)
              = (reg, cs @ map (\<lambda>h. Handler h type' d') (reg type'))"
            unfolding Data using p by (intro onmessage_passive) auto
          have "seen k type (map (\<lambda>h. Handler h type' d') (reg type')) = of_type type [m]"
            using Data k by (cases "type' = type") (simp_all add: seen_map_same seen_map_other)
          with o show ?thesis by blast
        qed
      qed
      then obtain new1 where o: "onmessage beh m (reg, cs) = (reg, cs @ new1)"
        and s1: "seen k type new1 = of_type type [m]"
        by blast
      from Cons [of "cs @ new1"] obtain new2 where
        r: "fold (ws_step beh) (map Receive ms') (reg, cs @ new1) = (reg, (cs @ new1) @ new2)"
        and s2: "seen k type new2 = of_type type ms'"
        by blast
      have "fold (ws_step beh) (map Receive (m # ms')) (reg, cs) = (reg, cs @ (new1 @ new2))
          \<and> seen k type (new1 @ new2) = of_type type (m # ms')"
        using o r s1 s2
        by (simp add: seen_append of_type_Cons [of type m ms'] del: of_type.simps)
      then show ?case by blast
    qed
    from run [of ms "[]"] show ?thesis by auto
  qed
  from a b c d e f show ?thesis by blast
qed

theorem dispatch_order_witness:
  "''ptz'' \<notin> builtin_types
   \<and> (\<forall>cs h d. looks_only cs h d = ([], False))
   \<and> example_registry ''ptz'' = [1, 2]
   \<and> count_list (example_registry ''ptz'') 1 = 1 \<and> count_list (example_registry ''ptz'') 2 = 1
   \<and> snd (onmessage looks_only (Data ''ptz'' 0) (example_registry, []))
        = [Handler 1 ''ptz'' 0, Handler 2 ''ptz'' 0]
   \<and> of_type ''ptz'' example_messages = [0, 1]
   \<and> seen 1 ''ptz'' (snd (fold (ws_step looks_only) (map Receive example_messages)
                               (example_registry, []))) = [0, 1]
   \<and> seen 2 ''ptz'' (snd (fold (ws_step looks_only) (map Receive example_messages)
                               (example_registry, []))) = [0, 1]"
  using dispatch_order [where beh = looks_only and reg = example_registry
      and ms = example_messages and type = "''ptz''" and ?h1.0 = 1 and ?h2.0 = 2 and d = 0
      and calls = "[]" and h = 1 and evs = "[]"]
  by (simp add: example_registry_def example_messages_def builtin_types_def onMessage_def
      no_handlers_def looks_only_def onmessage_def)

section \<open>Validation of the camera form\<close>

lemma field_string_within:
  "parse_field U (ZString [MinLen lo a, MaxLen hi b]) p v = [] \<longleftrightarrow> string_within lo hi v"
  by (cases v) (auto simp: string_within_def)

lemma field_optional_string_within:
  "parse_field U (ZOptional (ZString [MaxLen hi b])) p v = [] \<longleftrightarrow> absent_or (string_within 0 hi) v"
  by (cases v) (auto simp: string_within_def absent_or_def)

lemma field_url_string:
  "parse_field U (ZString [MinLen 1 a, Url b]) p v = [] \<longleftrightarrow> url_string U v"
  by (cases v) (auto simp: url_string_def Suc_le_eq)

lemma field_optional_string:
  "parse_field U (ZOptional (ZString [])) p v = [] \<longleftrightarrow> absent_or any_string v"
  by (cases v) (auto simp: any_string_def absent_or_def)

lemma field_default_boolean:
  "parse_field U (ZDefault ZBoolean (JBool d)) p v = [] \<longleftrightarrow> absent_or boolean v"
  by (cases v) (auto simp: boolean_def absent_or_def)

lemma field_optional_port:
  "parse_field U (ZOptional (ZNumber [IsInt, NMin 1 a, NMax 65535 b])) p v = []
     \<longleftrightarrow> absent_or port_number v"
proof (cases v)
  case (JNum x)
  then show ?thesis
    by (cases x) (auto simp: port_number_def absent_or_def)
qed (auto simp: port_number_def absent_or_def)

lemma parse_cameraSchema_iff:
  "parse_object U cameraSchema d = [] \<longleftrightarrow> satisfies_cameraSchema U d"
proof (cases d)
  case (JObject kvs)
  then show ?thesis
    unfolding parse_object_def cameraSchema_def satisfies_cameraSchema_def
    by (simp only: jsval.case list.map prod.case concat.simps append_is_Nil_conv
        field_string_within field_optional_string_within field_url_string
        field_optional_string field_default_boolean field_optional_port) simp
qed (simp_all add: parse_object_def satisfies_cameraSchema_def)

lemma parse_field_path: "(q, m) \<in> set (parse_field U t p v) \<Longrightarrow> q = p"
proof (induction U t p v rule: parse_field.induct)
  case (1 is_url cs p v)
  then show ?case
  proof (cases v)
    case (JStr s)
    with 1 obtain c where "(q, m) \<in> set (str_issues is_url p s c)" by auto
    then show ?thesis by (cases c) (auto split: if_splits)
  qed auto
next
  case (2 is_url cs p v)
  then show ?case
  proof (cases v)
    case (JNum x)
    show ?thesis
    proof (cases "x = NaN")
      case True
      with 2 JNum show ?thesis by simp
    next
      case False
      with 2 JNum obtain c where "(q, m) \<in> set (num_issues p x c)"
        by (cases x) auto
      then show ?thesis by (cases c) (auto split: if_splits)
    qed
  qed auto
next
  case (3 is_url p v)
  then show ?case by (cases v) auto
next
  case (4 is_url t p v)
  then show ?case by (auto split: if_splits)
next
  case (5 is_url t d p v)
  then show ?case by (auto split: if_splits)
qed

lemma parse_object_paths:
  "(q, m) \<in> set (parse_object U shape d) \<Longrightarrow> join q \<in> insert [] (fst ` set shape)"
proof (cases d)
  case (JObject kvs)
  assume "(q, m) \<in> set (parse_object U shape d)"
  with JObject obtain k t where kt: "(k, t) \<in> set shape"
    and "(q, m) \<in> set (parse_field U t [k] (get_prop kvs k))"
    by (auto simp: parse_object_def)
  then have "q = [k]" by (auto dest: parse_field_path)
  with kt show ?thesis by force
qed (auto simp: parse_object_def)

lemma dom_fold_errors:
  "dom (fold add_issue issues e) = dom e \<union> (join \<circ> fst) ` set issues"
  by (induction issues arbitrary: e) (auto simp: add_issue_def)

lemma dom_collect_errors: "dom (collect_errors issues) = (join \<circ> fst) ` set issues"
  by (simp add: collect_errors_def dom_fold_errors)

lemma fold_errors_add: "fold add_issue issues e = e ++ fold add_issue issues Map.empty"
proof (induction issues arbitrary: e)
  case Nil
  show ?case by simp
next
  case (Cons i issues)
  let ?F = "fold add_issue issues Map.empty"
  have "fold add_issue (i # issues) e = add_issue i e ++ ?F"
    using Cons [of "add_issue i e"] by simp
  moreover have "fold add_issue (i # issues) Map.empty = add_issue i Map.empty ++ ?F"
    using Cons [of "add_issue i Map.empty"] by simp
  moreover have "add_issue i e ++ ?F = e ++ (add_issue i Map.empty ++ ?F)"
    by (auto simp: add_issue_def map_add_def fun_eq_iff split: option.splits)
  ultimately show ?case by simp
qed

lemma collect_errors_append:
  "collect_errors (xs @ ys) = collect_errors xs ++ collect_errors ys"
  unfolding collect_errors_def fold_append comp_def
  by (rule fold_errors_add)

lemma collect_required_text:
  "collect_errors (parse_field U (ZString [MinLen lo a, MaxLen hi b]) [k] v)
     = single_error k (required_text_error lo a hi b v)"
  by (cases v) (auto simp: collect_errors_def add_issue_def single_error_def required_text_error_def)

lemma collect_optional_text:
  "collect_errors (parse_field U (ZOptional (ZString [MaxLen hi b])) [k] v)
     = single_error k (optional_text_error hi b v)"
  by (cases v) (auto simp: collect_errors_def add_issue_def single_error_def optional_text_error_def)

lemma collect_url_text:
  "collect_errors (parse_field U (ZString [MinLen 1 M_rtsp_required, Url M_rtsp_invalid]) [k] v)
     = single_error k (url_text_error U v)"
  by (cases v) (auto simp: collect_errors_def add_issue_def single_error_def url_text_error_def)

lemma collect_free_text:
  "collect_errors (parse_field U (ZOptional (ZString [])) [k] v) = single_error k (free_text_error v)"
  by (cases v) (auto simp: collect_errors_def add_issue_def single_error_def free_text_error_def)

lemma collect_flag:
  "collect_errors (parse_field U (ZDefault ZBoolean (JBool d)) [k] v) = single_error k (flag_error v)"
  by (cases v) (auto simp: collect_errors_def add_issue_def single_error_def flag_error_def)

lemma collect_port:
  "collect_errors (parse_field U (ZOptional (ZNumber [IsInt, NMin 1 M_port_range, NMax 65535 M_port_range])) [k] v)
     = single_error k (port_error v)"
proof (cases v)
  case (JNum x)
  then show ?thesis
    by (cases x) (auto simp: collect_errors_def add_issue_def single_error_def port_error_def)
qed (auto simp: collect_errors_def add_issue_def single_error_def port_error_def)

lemma single_error_at: "single_error k' e k = (if k = k' then e else None)"
  by (cases e) (simp_all add: single_error_def)

lemma single_errors_at:
  "distinct (map fst fs) \<Longrightarrow>
     merge_errors fs k = (case map_of fs k of None \<Rightarrow> None | Some e \<Rightarrow> e)"
proof (induction fs)
  case Nil
  show ?case by simp
next
  case (Cons f fs)
  obtain k' e where f: "f = (k', e)" by (cases f)
  from Cons.prems f have fresh: "map_of fs k' = None" and d: "distinct (map fst fs)"
    by (simp_all add: map_of_eq_None_iff)
  note IH = Cons.IH [OF d]
  show ?case
  proof (cases "k = k'")
    case True
    with IH fresh have "merge_errors fs k = None" by simp
    with True show ?thesis by (simp add: f map_add_def single_error_at)
  next
    case False
    with IH show ?thesis
      by (simp add: f map_add_def single_error_at split: option.splits)
  qed
qed

lemma collect_cameraSchema:
  "collect_errors (parse_object U cameraSchema d) = expected_errors U d"
proof (cases d)
  case (JObject kvs)
  let ?fs = "[(''name'', required_text_error 1 M_name_required 100 M_max_100 (get_prop kvs ''name'')),
      (''description'', optional_text_error 500 M_max_500 (get_prop kvs ''description'')),
      (''rtsp_url'', url_text_error U (get_prop kvs ''rtsp_url'')),
      (''username'', free_text_error (get_prop kvs ''username'')),
      (''password'', free_text_error (get_prop kvs ''password'')),
      (''location'', optional_text_error 100 M_max_100 (get_prop kvs ''location'')),
      (''recording_enabled'', flag_error (get_prop kvs ''recording_enabled'')),
      (''motion_detection'', flag_error (get_prop kvs ''motion_detection'')),
      (''ptz_enabled'', flag_error (get_prop kvs ''ptz_enabled'')),
      (''onvif_enabled'', flag_error (get_prop kvs ''onvif_enabled'')),
      (''onvif_port'', port_error (get_prop kvs ''onvif_port'')),
      (''onvif_path'', free_text_error (get_prop kvs ''onvif_path''))]"
  have c: "collect_errors (parse_object U cameraSchema (JObject kvs)) = merge_errors ?fs"
    unfolding parse_object_def cameraSchema_def
    by (simp only: jsval.case list.map prod.case concat.simps collect_errors_append
        collect_required_text collect_optional_text collect_url_text collect_free_text
        collect_flag collect_port merge_errors.simps)
      (simp add: collect_errors_def)
  have dist: "distinct (map fst ?fs)"
    by simp
  have "collect_errors (parse_object U cameraSchema (JObject kvs)) k
          = field_error U k (get_prop kvs k)" for k
    unfolding c single_errors_at [OF dist]
    by (simp add: field_error_def)
  with JObject show ?thesis
    by (simp add: expected_errors_def fun_eq_iff)
qed (simp_all add: parse_object_def expected_errors_def collect_errors_def add_issue_def)

text \<open>
  C5: when the form data satisfies the camera schema, \<open>validateForm\<close> returns success
  with no error map, no field has an error to show, and \<open>handleSubmit\<close> passes the whole
  data on and leaves the form's errors alone. When it does not, \<open>validateForm\<close> returns
  failure with a non-empty error map, and that map is the per-field one: under the name
  of each field whose value breaks the field's rule it holds that field's message, and
  it holds nothing else (data that is not an object has the one error at the empty
  path); \<open>handleSubmit\<close> stores that map and changes nothing else, so nothing is passed
  on.
\<close>

theorem validateForm_cameraSchema:
  fixes U :: "'c list \<Rightarrow> bool"
  shows "(satisfies_cameraSchema U (formData form) \<longrightarrow>
       validateForm U cameraSchema (formData form) = \<lparr> success = True, errors = None \<rparr>
     \<and> expected_errors U (formData form) = Map.empty
     \<and> handleSubmit U form = form\<lparr> submitted := submitted form @ [formData form] \<rparr>)
   \<and> (\<not> satisfies_cameraSchema U (formData form) \<longrightarrow>
       (\<exists>errs. validateForm U cameraSchema (formData form)
                  = \<lparr> success = False, errors = Some errs \<rparr>
            \<and> dom errs \<noteq> {}
            \<and> dom errs \<subseteq> insert [] (fst ` set (cameraSchema :: (string \<times> 'c ztype) list))
            \<and> errs = expected_errors U (formData form)
            \<and> handleSubmit U form = form\<lparr> form_errors := Some errs \<rparr>))"
proof (cases "parse_object U cameraSchema (formData form)")
  case Nil
  then have ok: "satisfies_cameraSchema U (formData form)"
    by (simp add: parse_cameraSchema_iff [symmetric])
  have "expected_errors U (formData form) = Map.empty"
    using collect_cameraSchema [of U "formData form"] Nil by (simp add: collect_errors_def)
  with Nil ok show ?thesis
    by (simp add: validateForm_def handleSubmit_def)
next
  case (Cons i rest)
  then have no: "\<not> satisfies_cameraSchema U (formData form)"
    by (simp add: parse_cameraSchema_iff [symmetric])
  let ?errs = "collect_errors (i # rest)"
  have v: "validateForm U cameraSchema (formData form) = \<lparr> success = False, errors = Some ?errs \<rparr>"
    using Cons by (simp add: validateForm_def)
  have ne: "dom ?errs \<noteq> {}"
    by (simp add: dom_collect_errors)
  have sub: "dom ?errs \<subseteq> insert [] (fst ` set (cameraSchema :: (string \<times> 'c ztype) list))"
    unfolding dom_collect_errors Cons [symmetric]
    using parse_object_paths [of _ _ U cameraSchema "formData form"] by fastforce
  have ex: "?errs = expected_errors U (formData form)"
    using collect_cameraSchema [of U "formData form"] Cons by simp
  have h: "handleSubmit U form = form\<lparr> form_errors := Some ?errs \<rparr>"
    by (simp add: handleSubmit_def v)
  from no v ne sub ex h show ?thesis by blast
qed

theorem validateForm_cameraSchema_witness:
  "satisfies_cameraSchema example_is_url good_config
   \<and> validateForm example_is_url cameraSchema good_config = \<lparr> success = True, errors = None \<rparr>
   \<and> \<not> satisfies_cameraSchema example_is_url bad_config
   \<and> success (validateForm example_is_url cameraSchema bad_config) = False
   \<and> expected_errors example_is_url bad_config ''name'' = Some M_name_required
   \<and> expected_errors example_is_url bad_config ''rtsp_url'' = Some M_rtsp_invalid
   \<and> expected_errors example_is_url bad_config ''onvif_port'' = Some M_zod
   \<and> expected_errors example_is_url bad_config ''description'' = None
   \<and> submitted (handleSubmit example_is_url
        \<lparr> formData = bad_config, form_errors = Some Map.empty, submitted = [] \<rparr>) = []
   \<and> submitted (handleSubmit example_is_url
        \<lparr> formData = good_config, form_errors = Some Map.empty, submitted = [] \<rparr>) = [good_config]"
  using validateForm_cameraSchema [of example_is_url
      "\<lparr> formData = good_config, form_errors = Some Map.empty, submitted = [] \<rparr>"]
    validateForm_cameraSchema [of example_is_url
      "\<lparr> formData = bad_config, form_errors = Some Map.empty, submitted = [] \<rparr>"]
  by (auto simp: satisfies_cameraSchema_def good_config_def bad_config_def example_is_url_def
      get_prop_def string_within_def url_string_def absent_or_def boolean_def port_number_def
      any_string_def expected_errors_def field_error_def required_text_error_def
      url_text_error_def port_error_def optional_text_error_def)

section \<open>Order of delivered frames\<close>

lemma increasing_append_new:
  assumes "sorted_wrt (<) (map seq fs)" and "\<forall>f \<in> set fs. seq f < n" and "seq g = n"
  shows "sorted_wrt (<) (map seq (fs @ [g]))" and "\<forall>f \<in> set (fs @ [g]). seq f < Suc n"
  using assms by (auto simp: sorted_wrt_append less_Suc_eq)

lemma increasing_sublist:
  assumes "sorted_wrt (<) (map seq (obs @ q))" and "\<forall>f \<in> set (obs @ q). seq f < n"
    and "set q' \<subseteq> set q" and "sorted_wrt (<) (map seq q) \<Longrightarrow> sorted_wrt (<) (map seq q')"
  shows "sorted_wrt (<) (map seq (obs @ q'))" and "\<forall>f \<in> set (obs @ q'). seq f < n"
  using assms by (auto simp: sorted_wrt_append)

lemma set_tl_subset: "x \<in> set (tl xs) \<Longrightarrow> x \<in> set xs"
  by (cases xs) simp_all

lemma sorted_wrt_tl: "sorted_wrt P xs \<Longrightarrow> sorted_wrt P (tl xs)"
  by (cases xs) simp_all

lemma sorted_wrt_butlast: "sorted_wrt P xs \<Longrightarrow> sorted_wrt P (butlast xs)"
  by (induction xs) (auto dest: in_set_butlastD)

lemma enqueue_in_order:
  assumes "sorted_wrt (<) (map seq (obs @ queue ch))"
    and "\<forall>f \<in> set (obs @ queue ch). seq f < n" and "seq g = n"
  shows "sorted_wrt (<) (map seq (obs @ queue (enqueue g ch)))
       \<and> (\<forall>f \<in> set (obs @ queue (enqueue g ch)). seq f < Suc n)"
proof -
  have keep: "sorted_wrt (<) (map seq (obs @ q') @ [seq g])
            \<and> (\<forall>f \<in> set (obs @ q' @ [g]). seq f < Suc n)"
    if sub: "set q' \<subseteq> set (queue ch)"
      and srt: "sorted_wrt (<) (map seq (queue ch)) \<Longrightarrow> sorted_wrt (<) (map seq q')"
    for q'
  proof -
    note a = increasing_sublist [OF assms(1,2) sub srt]
    have "sorted_wrt (<) (map seq ((obs @ q') @ [g]))"
      and "\<forall>f \<in> set ((obs @ q') @ [g]). seq f < Suc n"
      using increasing_append_new [OF a(1) a(2) assms(3)] by blast+
    then show ?thesis by simp
  qed
  have same: "sorted_wrt (<) (map seq (obs @ queue ch))
            \<and> (\<forall>f \<in> set (obs @ queue ch). seq f < Suc n)"
    using assms by (auto simp: less_Suc_eq)
  have k1: "sorted_wrt (<) (map seq (obs @ queue ch) @ [seq g])
          \<and> (\<forall>f \<in> set (obs @ queue ch @ [g]). seq f < Suc n)"
    by (rule keep) simp_all
  have k2: "sorted_wrt (<) (map seq (obs @ tl (queue ch)) @ [seq g])
          \<and> (\<forall>f \<in> set (obs @ tl (queue ch) @ [g]). seq f < Suc n)"
    by (rule keep) (auto simp: map_tl sorted_wrt_tl dest: set_tl_subset)
  have k3: "sorted_wrt (<) (map seq (obs @ butlast (queue ch)) @ [seq g])
          \<and> (\<forall>f \<in> set (obs @ butlast (queue ch) @ [g]). seq f < Suc n)"
    by (rule keep) (auto simp: map_butlast sorted_wrt_butlast dest: in_set_butlastD)
  show ?thesis
  proof (cases "policy ch")
    case DropOldest
    with same k1 k2 show ?thesis by (simp add: enqueue_def)
  next
    case DropNewest
    with same k1 k3 show ?thesis by (simp add: enqueue_def)
  qed
qed

lemma in_order_init: "in_order distributor_init"
  by (simp add: in_order_def distributor_init_def pending_def)

lemma in_order_step:
  assumes "in_order s"
  shows "in_order (dist_step a s)"
proof (cases a)
  case (Attach c pol cap)
  show ?thesis
    unfolding in_order_def
  proof (intro allI)
    fix c'
    from assms have "sorted_wrt (<) (map seq (observed s c' @ pending s c'))
        \<and> (\<forall>f \<in> set (observed s c' @ pending s c'). seq f < next_seq s)"
      by (simp add: in_order_def)
    then show "sorted_wrt (<) (map seq (observed (dist_step a s) c' @ pending (dist_step a s) c'))
        \<and> (\<forall>f \<in> set (observed (dist_step a s) c' @ pending (dist_step a s) c').
              seq f < next_seq (dist_step a s))"
      using Attach by (auto simp: attach_def pending_def sorted_wrt_append)
  qed
next
  case (Detach c)
  show ?thesis
    unfolding in_order_def
  proof (intro allI)
    fix c'
    from assms have "sorted_wrt (<) (map seq (observed s c' @ pending s c'))
        \<and> (\<forall>f \<in> set (observed s c' @ pending s c'). seq f < next_seq s)"
      by (simp add: in_order_def)
    then show "sorted_wrt (<) (map seq (observed (dist_step a s) c' @ pending (dist_step a s) c'))
        \<and> (\<forall>f \<in> set (observed (dist_step a s) c' @ pending (dist_step a s) c').
              seq f < next_seq (dist_step a s))"
      using Detach by (auto simp: detach_def pending_def sorted_wrt_append)
  qed
next
  case (Produce ts)
  show ?thesis
    unfolding in_order_def
  proof (intro allI)
    fix c'
    from assms have old: "sorted_wrt (<) (map seq (observed s c' @ pending s c'))"
      "\<forall>f \<in> set (observed s c' @ pending s c'). seq f < next_seq s"
      by (simp_all add: in_order_def)
    show "sorted_wrt (<) (map seq (observed (dist_step a s) c' @ pending (dist_step a s) c'))
        \<and> (\<forall>f \<in> set (observed (dist_step a s) c' @ pending (dist_step a s) c').
              seq f < next_seq (dist_step a s))"
    proof (cases "channels s c'")
      case None
      with old Produce show ?thesis
        by (auto simp: produce_def pending_def Let_def less_Suc_eq)
    next
      case (Some ch)
      with old have "sorted_wrt (<) (map seq (observed s c' @ queue ch))"
        and "\<forall>f \<in> set (observed s c' @ queue ch). seq f < next_seq s"
        by (simp_all add: pending_def)
      from enqueue_in_order [OF this, of "\<lparr> seq = next_seq s, timestamp = ts \<rparr>"]
      show ?thesis
        using Some Produce by (simp add: produce_def pending_def Let_def)
    qed
  qed
next
  case (Consume c)
  show ?thesis
    unfolding in_order_def
  proof (intro allI)
    fix c'
    from assms have old: "sorted_wrt (<) (map seq (observed s c' @ pending s c'))
        \<and> (\<forall>f \<in> set (observed s c' @ pending s c'). seq f < next_seq s)"
      by (simp add: in_order_def)
    show "sorted_wrt (<) (map seq (observed (dist_step a s) c' @ pending (dist_step a s) c'))
        \<and> (\<forall>f \<in> set (observed (dist_step a s) c' @ pending (dist_step a s) c').
              seq f < next_seq (dist_step a s))"
    proof (cases "c' = c")
      case False
      with old Consume show ?thesis
        by (auto simp: consume_def pending_def split: option.splits list.splits)
    next
      case True
      show ?thesis
      proof (cases "channels s c")
        case None
        with old Consume show ?thesis by (simp add: consume_def)
      next
        case (Some ch)
        show ?thesis
        proof (cases "queue ch")
          case Nil
          with old Consume Some show ?thesis by (simp add: consume_def)
        next
          case (Cons f fs)
          with old Consume Some True show ?thesis
            by (simp add: consume_def pending_def)
        qed
      qed
    qed
  qed
qed

lemma in_order_fold: "in_order s \<Longrightarrow> in_order (fold dist_step acts s)"
  by (induction acts arbitrary: s) (simp_all add: in_order_step)

text \<open>
  C7: in every run of the distributor, whatever is attached, detached, produced and
  consumed, the sequence numbers of the frames a consumer has taken from its queue are
  strictly increasing.
\<close>

theorem observed_strictly_increasing:
  "sorted_wrt (<) (map seq (observed (dist_run acts) c))"
proof -
  have "in_order (dist_run acts)"
    unfolding dist_run_def by (rule in_order_fold [OF in_order_init])
  then show ?thesis
    by (simp add: in_order_def sorted_wrt_append)
qed

theorem observed_strictly_increasing_witness:
  "map seq (observed (dist_run slow_consumer) 1) = [0, 2, 3]
   \<and> sorted_wrt (<) (map seq (observed (dist_run slow_consumer) 1))"
  using observed_strictly_increasing [of slow_consumer 1]
  by (simp add: slow_consumer_def dist_run_def distributor_init_def attach_def produce_def
      consume_def enqueue_def Let_def)

end
